theory Spec2Isabelle
  imports Complex_Main "HOL-Library.Word"
begin

section \<open>Scores, pieces and the rules engine\<close>

text \<open>
  The engine consumes the python-chess library: boards, moves, legal-move generation,
  push and pop, terminal predicates. None of it belongs to the repository, so the whole
  library is one parameter of the model, a record of functions over an opaque board
  type \<open>'b\<close> and an opaque move type \<open>'m\<close>.

  Scores are Python numbers extended by \<open>float('-inf')\<close> and \<open>float('inf')\<close>, from which
  the searches start. The first and third program score with integers (\<open>score\<close>); the
  second adds halves (\<open>3.5 - abs(file - 3.5)\<close>), exact in binary floating point and
  modelled as rationals (\<open>fscore\<close>).
\<close>

datatype 'a ext = NegInf | Fin 'a | PosInf

instantiation ext :: (linorder) linorder
begin

fun less_eq_ext :: "'a ext \<Rightarrow> 'a ext \<Rightarrow> bool" where
  "less_eq_ext NegInf y = True"
| "less_eq_ext (Fin a) NegInf = False"
| "less_eq_ext (Fin a) (Fin b) = (a \<le> b)"
| "less_eq_ext (Fin a) PosInf = True"
| "less_eq_ext PosInf NegInf = False"
| "less_eq_ext PosInf (Fin b) = False"
| "less_eq_ext PosInf PosInf = True"

definition less_ext :: "'a ext \<Rightarrow> 'a ext \<Rightarrow> bool" where
  "less_ext x y = (x \<le> y \<and> \<not> y \<le> x)"

instance
proof
  fix x y z :: "'a ext"
  show "(x < y) = (x \<le> y \<and> \<not> y \<le> x)"
    by (simp add: less_ext_def)
  show "x \<le> x"
    by (cases x) simp_all
  show "x \<le> y \<Longrightarrow> y \<le> z \<Longrightarrow> x \<le> z"
    by (cases x; cases y; cases z) simp_all
  show "x \<le> y \<Longrightarrow> y \<le> x \<Longrightarrow> x = y"
    by (cases x; cases y) simp_all
  show "x \<le> y \<or> y \<le> x"
    by (cases x; cases y) auto
qed

end

type_synonym score = "int ext"

type_synonym fscore = "rat ext"

datatype color = White | Black

datatype piece_type = Pawn | Knight | Bishop | Rook | Queen | King

datatype piece = Piece (kind: piece_type) (side: color)

type_synonym square = nat

record ('b, 'm) rules =
  legal_moves :: "'b \<Rightarrow> 'm list"
  push :: "'b \<Rightarrow> 'm \<Rightarrow> 'b"
  pop :: "'b \<Rightarrow> 'b"
  turn :: "'b \<Rightarrow> color"
  is_checkmate :: "'b \<Rightarrow> bool"
  is_stalemate :: "'b \<Rightarrow> bool"
  is_check :: "'b \<Rightarrow> bool"
  is_game_over :: "'b \<Rightarrow> bool"
  is_insufficient_material :: "'b \<Rightarrow> bool"
  can_claim_draw :: "'b \<Rightarrow> bool"
  king :: "'b \<Rightarrow> color \<Rightarrow> square option"
  piece_at :: "'b \<Rightarrow> square \<Rightarrow> piece option"
  is_capture :: "'b \<Rightarrow> 'm \<Rightarrow> bool"
  is_castling :: "'b \<Rightarrow> 'm \<Rightarrow> bool"
  to_square :: "'m \<Rightarrow> square"
  fen :: "'b \<Rightarrow> string"

text \<open>\<open>chess.square_file\<close> is \<open>square & 7\<close>, \<open>chess.square_rank\<close> is \<open>square >> 3\<close>.\<close>

definition square_file :: "square \<Rightarrow> int" where
  "square_file s = int (s mod 8)"

definition square_rank :: "square \<Rightarrow> int" where
  "square_rank s = int (s div 8)"

text \<open>\<open>chess.square_distance\<close>: the number of king steps between two squares.\<close>

definition square_distance :: "square \<Rightarrow> square \<Rightarrow> int" where
  "square_distance a b =
     max \<bar>square_file a - square_file b\<bar> \<bar>square_rank a - square_rank b\<bar>"

text \<open>
  \<open>chess.SQUARES\<close> is \<open>list(range(64))\<close>, written rank by rank. \<open>first_rook\<close> is the scan
  \<open>for square in chess.SQUARES\<close> that stops at the first rook of a colour; it is also the
  first element of \<open>board.pieces(chess.ROOK, colour)\<close>, which lists squares upwards.
\<close>

definition SQUARES :: "square list" where
  "SQUARES =
     [0, 1, 2, 3, 4, 5, 6, 7] @ [8, 9, 10, 11, 12, 13, 14, 15]
     @ [16, 17, 18, 19, 20, 21, 22, 23] @ [24, 25, 26, 27, 28, 29, 30, 31]
     @ [32, 33, 34, 35, 36, 37, 38, 39] @ [40, 41, 42, 43, 44, 45, 46, 47]
     @ [48, 49, 50, 51, 52, 53, 54, 55] @ [56, 57, 58, 59, 60, 61, 62, 63]"

definition first_rook :: "('b, 'm) rules \<Rightarrow> 'b \<Rightarrow> color \<Rightarrow> square option" where
  "first_rook R b c = find (\<lambda>s. piece_at R b s = Some (Piece Rook c)) SQUARES"

section \<open>First program: the white king against king and rook\<close>

text \<open>
  \<open>evaluate_board\<close>. The result is \<open>None\<close> where Python raises \<open>TypeError\<close>: a king
  that \<open>board.king\<close> does not find is \<open>None\<close>, and \<open>chess.square_file(None)\<close> fails.
  The test \<open>if not black_rook\<close> is Python truthiness: it succeeds when no rook was found
  and also when the rook stands on square 0.
\<close>

definition evaluate_board :: "('b, 'm) rules \<Rightarrow> 'b \<Rightarrow> int option" where
  "evaluate_board R b =
     (if is_checkmate R b then Some (if turn R b = White then 10000 else - 10000)
      else if is_stalemate R b then Some 0
      else
        (case first_rook R b Black of
           None \<Rightarrow> Some 0
         | Some black_rook \<Rightarrow>
             if black_rook = 0 then Some 0
             else
               (case (king R b White, king R b Black) of
                  (Some white_king, Some black_king) \<Rightarrow>
                    (let dist_rook =
                           max \<bar>square_file white_king - square_file black_rook\<bar>
                               \<bar>square_rank white_king - square_rank black_rook\<bar>;
                         dist_kings =
                           max \<bar>square_file white_king - square_file black_king\<bar>
                               \<bar>square_rank white_king - square_rank black_king\<bar>;
                         e0 = (if is_check R b
                               then (if turn R b = Black then 50 else - 30) else 0);
                         edge_dist =
                           min (min (square_file white_king) (7 - square_file white_king))
                               (min (square_rank white_king) (7 - square_rank white_king));
                         e1 = e0 + (4 - edge_dist) * 15;
                         e2 = (if square_file white_king = square_file black_rook
                                  \<or> square_rank white_king = square_rank black_rook
                               then e1 + 20 + (if dist_rook > 1 then 10 else 0) else e1);
                         e3 = (if dist_kings \<le> 1 then e2 - 30 else e2);
                         e4 = (if (\<bar>square_file white_king - square_file black_king\<bar> = 2
                                     \<and> square_rank white_king = square_rank black_king)
                                  \<or> (\<bar>square_rank white_king - square_rank black_king\<bar> = 2
                                     \<and> square_file white_king = square_file black_king)
                               then e3 + 25 else e3)
                     in Some (if turn R b = Black then e4 else - e4))
                | _ \<Rightarrow> None)))"

text \<open>
  \<open>evaluate_move\<close> pushes the move, scores the position reached and pops. It returns the
  score together with the board it leaves behind. The score is a float with a half in
  it (\<open>3.5 - file\<close>), exact in binary, modelled as a rational.
\<close>

definition center_distance :: "square \<Rightarrow> rat" where
  "center_distance s =
     max \<bar>7 / 2 - of_int (square_file s)\<bar> \<bar>7 / 2 - of_int (square_rank s)\<bar>"

definition evaluate_move :: "('b, 'm) rules \<Rightarrow> 'b \<Rightarrow> 'm \<Rightarrow> rat \<times> 'b" where
  "evaluate_move R b move =
     (let b1 = push R b move;
          s0 = (if is_checkmate R b1 then 10000
                else if is_check R b1 then 50
                else if is_capture R b1 move then 30 else 0);
          s1 = (if is_castling R b1 move then s0 + 40 else s0);
          s2 = (if turn R b1 = Black
                then (case piece_at R b1 (to_square R move) of
                        Some (Piece King c) \<Rightarrow> s1 + (15 - center_distance (to_square R move) * 3)
                      | _ \<Rightarrow> s1)
                else s1)
      in (s2, pop R b1))"

text \<open>
  \<open>legal_moves.sort(key=..., reverse=...)\<close>: Python computes the key of every element
  first, in list order, then sorts stably; with \<open>reverse=True\<close> equal keys still keep
  their original order, which is a stable ascending sort on the negated key.
\<close>

fun move_keys :: "('b, 'm) rules \<Rightarrow> 'b \<Rightarrow> 'm list \<Rightarrow> rat list \<times> 'b" where
  "move_keys R b [] = ([], b)"
| "move_keys R b (m # ms) =
     (let (k, b1) = evaluate_move R b m;
          (ks, b2) = move_keys R b1 ms
      in (k # ks, b2))"

definition sort_moves :: "bool \<Rightarrow> rat list \<Rightarrow> 'm list \<Rightarrow> 'm list" where
  "sort_moves reverse ks ms =
     map snd (sort_key (\<lambda>(k, m). if reverse then - k else k) (zip ks ms))"

text \<open>
  \<open>minimax\<close> and its two loops. The board is threaded through every call: each function
  returns the board it leaves behind. A \<open>TypeError\<close> in the evaluator ends the whole
  search (\<open>None\<close>). The depth counts down from a positive number, so it is a natural
  number here. The loops take the recursive call \<open>minimax(board, depth - 1, alpha, beta, _)\<close>
  as their first argument \<open>search\<close>.
\<close>

type_synonym ('b, 'm) found = "((score \<times> 'm option) \<times> 'b) option"

fun max_loop :: "('b \<Rightarrow> score \<Rightarrow> score \<Rightarrow> ('b, 'm) found) \<Rightarrow> ('b, 'm) rules \<Rightarrow> 'b \<Rightarrow> 'm list
                  \<Rightarrow> score \<Rightarrow> score \<Rightarrow> score \<Rightarrow> 'm option \<Rightarrow> ('b, 'm) found" where
  "max_loop search R b [] alpha beta max_eval best_move = Some ((max_eval, best_move), b)"
| "max_loop search R b (move # rest) alpha beta max_eval best_move =
     (case search (push R b move) alpha beta of
        None \<Rightarrow> None
      | Some ((eval, _), b1) \<Rightarrow>
          (let b2 = pop R b1;
               max_eval' = (if eval > max_eval then eval else max_eval);
               best_move' = (if eval > max_eval then Some move else best_move);
               alpha' = max alpha eval
           in if beta \<le> alpha' then Some ((max_eval', best_move'), b2)
              else max_loop search R b2 rest alpha' beta max_eval' best_move'))"

fun min_loop :: "('b \<Rightarrow> score \<Rightarrow> score \<Rightarrow> ('b, 'm) found) \<Rightarrow> ('b, 'm) rules \<Rightarrow> 'b \<Rightarrow> 'm list
                  \<Rightarrow> score \<Rightarrow> score \<Rightarrow> score \<Rightarrow> 'm option \<Rightarrow> ('b, 'm) found" where
  "min_loop search R b [] alpha beta min_eval best_move = Some ((min_eval, best_move), b)"
| "min_loop search R b (move # rest) alpha beta min_eval best_move =
     (case search (push R b move) alpha beta of
        None \<Rightarrow> None
      | Some ((eval, _), b1) \<Rightarrow>
          (let b2 = pop R b1;
               min_eval' = (if eval < min_eval then eval else min_eval);
               best_move' = (if eval < min_eval then Some move else best_move);
               beta' = min beta eval
           in if beta' \<le> alpha then Some ((min_eval', best_move'), b2)
              else min_loop search R b2 rest alpha beta' min_eval' best_move'))"

fun minimax :: "('b, 'm) rules \<Rightarrow> 'b \<Rightarrow> nat \<Rightarrow> score \<Rightarrow> score \<Rightarrow> bool \<Rightarrow> ('b, 'm) found" where
  "minimax R b 0 alpha beta maximizing_player =
     map_option (\<lambda>v. ((Fin v, None), b)) (evaluate_board R b)"
| "minimax R b (Suc d) alpha beta maximizing_player =
     (if is_game_over R b then map_option (\<lambda>v. ((Fin v, None), b)) (evaluate_board R b)
      else
        (let ms = legal_moves R b;
             (ks, b1) = move_keys R b ms;
             sorted = sort_moves maximizing_player ks ms
         in if maximizing_player
            then max_loop (\<lambda>b' a bt. minimax R b' d a bt False) R b1 sorted alpha beta NegInf None
            else min_loop (\<lambda>b' a bt. minimax R b' d a bt True) R b1 sorted alpha beta PosInf None))"

text \<open>
  The recursive call at one depth less, as a function of the board and the window. The
  loops of \<open>minimax\<close> receive exactly this function.
\<close>

definition msearch :: "('b, 'm) rules \<Rightarrow> nat \<Rightarrow> bool \<Rightarrow> 'b \<Rightarrow> score \<Rightarrow> score \<Rightarrow> ('b, 'm) found" where
  "msearch R d maximizing_player b alpha beta = minimax R b d alpha beta maximizing_player"

text \<open>
  \<open>get_ai_move\<close>: the scan for a mate in one, then the deepening loop over
  \<open>range(1, depth + 1)\<close>. The wall clock is the one input the program reads from outside;
  \<open>late d\<close> says whether \<open>time.time() - start_time > 2\<close> holds when it is evaluated after
  the search of depth \<open>d\<close>.
\<close>

fun mate_scan :: "('b, 'm) rules \<Rightarrow> 'b \<Rightarrow> 'm list \<Rightarrow> 'm option \<times> 'b" where
  "mate_scan R b [] = (None, b)"
| "mate_scan R b (move # rest) =
     (let b1 = push R b move
      in if is_checkmate R b1 then (Some move, pop R b1)
         else mate_scan R (pop R b1) rest)"

fun deepening :: "('b, 'm) rules \<Rightarrow> (nat \<Rightarrow> bool) \<Rightarrow> 'b \<Rightarrow> nat list \<Rightarrow> 'm option
                   \<Rightarrow> ('m option \<times> 'b) option" where
  "deepening R late b [] best_move = Some (best_move, b)"
| "deepening R late b (current_depth # rest) best_move =
     (case minimax R b current_depth NegInf PosInf (turn R b = Black) of
        None \<Rightarrow> None
      | Some ((_, best_move'), b1) \<Rightarrow>
          if is_checkmate R b1 \<or> is_stalemate R b1 \<or> late current_depth
          then Some (best_move', b1)
          else deepening R late b1 rest best_move')"

definition get_ai_move :: "('b, 'm) rules \<Rightarrow> (nat \<Rightarrow> bool) \<Rightarrow> 'b \<Rightarrow> nat
                             \<Rightarrow> ('m option \<times> 'b) option" where
  "get_ai_move R late b depth =
     (case mate_scan R b (legal_moves R b) of
        (Some move, b1) \<Rightarrow> Some (Some move, b1)
      | (None, b1) \<Rightarrow> deepening R late b1 [1..<Suc depth] None)"

section \<open>The search of the first program without pruning\<close>

text \<open>
  The reference that the pruned search is compared with: \<open>minimax\<close> with the window, the
  updates of \<open>alpha\<close> and \<open>beta\<close> and the two \<open>break\<close> statements deleted. It sorts the moves
  the same way and keeps the first move that reaches the best value.
\<close>

type_synonym ('b, 'm) plain_search = "'b \<Rightarrow> ('b, 'm) found"

fun plain_max_loop :: "('b, 'm) plain_search \<Rightarrow> ('b, 'm) rules \<Rightarrow> 'b \<Rightarrow> 'm list
                        \<Rightarrow> score \<Rightarrow> 'm option \<Rightarrow> ('b, 'm) found" where
  "plain_max_loop search R b [] max_eval best_move = Some ((max_eval, best_move), b)"
| "plain_max_loop search R b (move # rest) max_eval best_move =
     (case search (push R b move) of
        None \<Rightarrow> None
      | Some ((eval, _), b1) \<Rightarrow>
          plain_max_loop search R (pop R b1) rest
            (if eval > max_eval then eval else max_eval)
            (if eval > max_eval then Some move else best_move))"

fun plain_min_loop :: "('b, 'm) plain_search \<Rightarrow> ('b, 'm) rules \<Rightarrow> 'b \<Rightarrow> 'm list
                        \<Rightarrow> score \<Rightarrow> 'm option \<Rightarrow> ('b, 'm) found" where
  "plain_min_loop search R b [] min_eval best_move = Some ((min_eval, best_move), b)"
| "plain_min_loop search R b (move # rest) min_eval best_move =
     (case search (push R b move) of
        None \<Rightarrow> None
      | Some ((eval, _), b1) \<Rightarrow>
          plain_min_loop search R (pop R b1) rest
            (if eval < min_eval then eval else min_eval)
            (if eval < min_eval then Some move else best_move))"

fun minimax_unpruned :: "('b, 'm) rules \<Rightarrow> 'b \<Rightarrow> nat \<Rightarrow> bool \<Rightarrow> ('b, 'm) found" where
  "minimax_unpruned R b 0 maximizing_player =
     map_option (\<lambda>v. ((Fin v, None), b)) (evaluate_board R b)"
| "minimax_unpruned R b (Suc d) maximizing_player =
     (if is_game_over R b then map_option (\<lambda>v. ((Fin v, None), b)) (evaluate_board R b)
      else
        (let ms = legal_moves R b;
             (ks, b1) = move_keys R b ms;
             sorted = sort_moves maximizing_player ks ms
         in if maximizing_player
            then plain_max_loop (\<lambda>b'. minimax_unpruned R b' d False) R b1 sorted NegInf None
            else plain_min_loop (\<lambda>b'. minimax_unpruned R b' d True) R b1 sorted PosInf None))"

definition usearch :: "('b, 'm) rules \<Rightarrow> nat \<Rightarrow> bool \<Rightarrow> ('b, 'm) plain_search" where
  "usearch R d maximizing_player b = minimax_unpruned R b d maximizing_player"

section \<open>Second program: the solver with a transposition table\<close>

text \<open>
  \<open>ChessEndgameSolver.evaluate_board\<close>. White has the rook here. Python's \<open>or\<close> evaluates
  its operands from the left and stops at the first true one, which the nested
  conditionals spell out. \<open>if not white_rook\<close> is truthiness again: it holds when White
  has no rook and when the rook stands on square 0. The counter \<open>nodes_evaluated\<close> is
  only displayed and is left out.
\<close>

definition centrality :: "square \<Rightarrow> rat" where
  "centrality s =
     (7 / 2 - \<bar>of_int (square_file s) - 7 / 2\<bar>) + (7 / 2 - \<bar>of_int (square_rank s) - 7 / 2\<bar>)"

definition solver_evaluate_board :: "('b, 'm) rules \<Rightarrow> 'b \<Rightarrow> fscore option" where
  "solver_evaluate_board R b =
     (if is_checkmate R b then Some (if turn R b = Black then PosInf else NegInf)
      else if is_stalemate R b then Some (Fin 0)
      else if is_insufficient_material R b then Some (Fin 0)
      else if can_claim_draw R b then Some (Fin 0)
      else
        (case first_rook R b White of
           None \<Rightarrow> Some NegInf
         | Some white_rook \<Rightarrow>
             if white_rook = 0 then Some NegInf
             else
               (case (king R b White, king R b Black) of
                  (Some white_king, Some black_king) \<Rightarrow>
                    (let rook_safety = square_distance white_rook black_king;
                         s1 = of_int (rook_safety * 5);
                         king_proximity = 14 - square_distance white_king black_king;
                         s2 = s1 + of_int (king_proximity * 3);
                         s3 = s2 + centrality white_rook * 2;
                         s4 = (if square_file white_king = square_file black_king
                                  \<or> square_rank white_king = square_rank black_king
                               then s3 + 10 else s3);
                         s5 = (if is_check R b then s4 + 15 else s4)
                     in Some (Fin s5))
                | _ \<Rightarrow> None)))"

text \<open>
  The transposition table is a dictionary from the FEN string of a board to the value and
  the depth stored for it. \<open>lookup_entry\<close> is the test at the head of \<open>minimax\<close>: an entry counts
  when its depth is at least the depth asked for. The table is threaded through the
  search like the board; the two loops do not look into it and are written for whatever
  is threaded.

  The depth is an integer. \<open>find_best_move\<close> with \<open>depth = 0\<close> searches at depth \<open>-1\<close>, and
  from a negative depth the test \<open>depth == 0\<close> never holds again: the recursion stops only
  at a usable entry or where the game is over. Python bounds the nesting of calls. The
  first argument of \<open>solver_minimax\<close> is the number of nested calls still allowed; with
  none left the call raises \<open>RecursionError\<close> (\<open>None\<close>). A search at depth \<open>d \<ge> 0\<close> nests at
  most \<open>d + 1\<close> calls.

  \<open>for move in board.legal_moves\<close> is modelled by the list of legal moves of the board
  at the head of the loop. The test \<open>depth == 0 or board.is_game_over()\<close> is spelled out
  as two nested conditionals, the way Python evaluates it.
\<close>

type_synonym table = "string \<rightharpoonup> (fscore \<times> int)"

type_synonym ('s, 'b) threaded = "((fscore \<times> 's) \<times> 'b) option"

type_synonym 'b cached = "(table, 'b) threaded"

definition lookup_entry :: "table \<Rightarrow> string \<Rightarrow> int \<Rightarrow> fscore option" where
  "lookup_entry t board_fen depth =
     (case t board_fen of
        None \<Rightarrow> None
      | Some (v, d) \<Rightarrow> if d \<ge> depth then Some v else None)"

definition solver_leaf :: "('b, 'm) rules \<Rightarrow> table \<Rightarrow> 'b \<Rightarrow> int \<Rightarrow> 'b cached" where
  "solver_leaf R t b depth =
     map_option (\<lambda>eval. ((eval, t(fen R b \<mapsto> (eval, depth))), b)) (solver_evaluate_board R b)"

fun solver_max_loop :: "('s \<Rightarrow> 'b \<Rightarrow> fscore \<Rightarrow> fscore \<Rightarrow> ('s, 'b) threaded) \<Rightarrow> ('b, 'm) rules \<Rightarrow> 's
                         \<Rightarrow> 'b \<Rightarrow> 'm list \<Rightarrow> fscore \<Rightarrow> fscore \<Rightarrow> fscore \<Rightarrow> ('s, 'b) threaded" where
  "solver_max_loop search R t b [] alpha beta max_eval = Some ((max_eval, t), b)"
| "solver_max_loop search R t b (move # rest) alpha beta max_eval =
     (case search t (push R b move) alpha beta of
        None \<Rightarrow> None
      | Some ((eval, t1), b1) \<Rightarrow>
          (let b2 = pop R b1;
               max_eval' = max max_eval eval;
               alpha' = max alpha eval
           in if beta \<le> alpha' then Some ((max_eval', t1), b2)
              else solver_max_loop search R t1 b2 rest alpha' beta max_eval'))"

fun solver_min_loop :: "('s \<Rightarrow> 'b \<Rightarrow> fscore \<Rightarrow> fscore \<Rightarrow> ('s, 'b) threaded) \<Rightarrow> ('b, 'm) rules \<Rightarrow> 's
                         \<Rightarrow> 'b \<Rightarrow> 'm list \<Rightarrow> fscore \<Rightarrow> fscore \<Rightarrow> fscore \<Rightarrow> ('s, 'b) threaded" where
  "solver_min_loop search R t b [] alpha beta min_eval = Some ((min_eval, t), b)"
| "solver_min_loop search R t b (move # rest) alpha beta min_eval =
     (case search t (push R b move) alpha beta of
        None \<Rightarrow> None
      | Some ((eval, t1), b1) \<Rightarrow>
          (let b2 = pop R b1;
               min_eval' = min min_eval eval;
               beta' = min beta eval
           in if beta' \<le> alpha then Some ((min_eval', t1), b2)
              else solver_min_loop search R t1 b2 rest alpha beta' min_eval'))"

definition store :: "string \<Rightarrow> int \<Rightarrow> 'b cached \<Rightarrow> 'b cached" where
  "store board_fen depth r =
     (case r of
        None \<Rightarrow> None
      | Some ((v, t), b) \<Rightarrow> Some ((v, t(board_fen \<mapsto> (v, depth))), b))"

fun solver_minimax :: "nat \<Rightarrow> ('b, 'm) rules \<Rightarrow> table \<Rightarrow> 'b \<Rightarrow> int \<Rightarrow> fscore \<Rightarrow> fscore \<Rightarrow> bool
                        \<Rightarrow> 'b cached" where
  "solver_minimax 0 R t b depth alpha beta maximizing_player = None"
| "solver_minimax (Suc calls) R t b depth alpha beta maximizing_player =
     (case lookup_entry t (fen R b) depth of
        Some v \<Rightarrow> Some ((v, t), b)
      | None \<Rightarrow>
          if depth = 0 then solver_leaf R t b depth
          else if is_game_over R b then solver_leaf R t b depth
          else if maximizing_player
          then store (fen R b) depth
                 (solver_max_loop
                    (\<lambda>t' b' a bt. solver_minimax calls R t' b' (depth - 1) a bt False)
                    R t b (legal_moves R b) alpha beta NegInf)
          else store (fen R b) depth
                 (solver_min_loop
                    (\<lambda>t' b' a bt. solver_minimax calls R t' b' (depth - 1) a bt True)
                    R t b (legal_moves R b) alpha beta PosInf))"

definition ssearch :: "nat \<Rightarrow> ('b, 'm) rules \<Rightarrow> int \<Rightarrow> bool \<Rightarrow> table \<Rightarrow> 'b \<Rightarrow> fscore \<Rightarrow> fscore
                        \<Rightarrow> 'b cached" where
  "ssearch calls R depth maximizing_player t b alpha beta =
     solver_minimax calls R t b depth alpha beta maximizing_player"

text \<open>
  The same search with no table, to compare with: every statement that reads or writes
  \<open>self.transposition_table\<close> is deleted, and nothing is threaded but the board.
\<close>

type_synonym 'b uncached = "(unit, 'b) threaded"

fun solver_minimax_nocache :: "nat \<Rightarrow> ('b, 'm) rules \<Rightarrow> 'b \<Rightarrow> int \<Rightarrow> fscore \<Rightarrow> fscore \<Rightarrow> bool
                                \<Rightarrow> 'b uncached" where
  "solver_minimax_nocache 0 R b depth alpha beta maximizing_player = None"
| "solver_minimax_nocache (Suc calls) R b depth alpha beta maximizing_player =
     (if depth = 0 then map_option (\<lambda>eval. ((eval, ()), b)) (solver_evaluate_board R b)
      else if is_game_over R b
      then map_option (\<lambda>eval. ((eval, ()), b)) (solver_evaluate_board R b)
      else if maximizing_player
      then solver_max_loop
             (\<lambda>u b' a bt. solver_minimax_nocache calls R b' (depth - 1) a bt False)
             R () b (legal_moves R b) alpha beta NegInf
      else solver_min_loop
             (\<lambda>u b' a bt. solver_minimax_nocache calls R b' (depth - 1) a bt True)
             R () b (legal_moves R b) alpha beta PosInf)"

definition nsearch :: "nat \<Rightarrow> ('b, 'm) rules \<Rightarrow> int \<Rightarrow> bool \<Rightarrow> unit \<Rightarrow> 'b \<Rightarrow> fscore \<Rightarrow> fscore
                        \<Rightarrow> 'b uncached" where
  "nsearch calls R depth maximizing_player u b alpha beta =
     solver_minimax_nocache calls R b depth alpha beta maximizing_player"

text \<open>
  \<open>solver_minimax\<close> once more, counting. Next to the table it threads the number of
  calls that were answered from the table. Nothing else differs: forgetting the count
  gives \<open>solver_minimax\<close> back (lemma \<open>solver_minimax_hits_erase\<close> below).
\<close>

fun solver_minimax_hits :: "nat \<Rightarrow> ('b, 'm) rules \<Rightarrow> table \<times> nat \<Rightarrow> 'b \<Rightarrow> int \<Rightarrow> fscore \<Rightarrow> fscore
                             \<Rightarrow> bool \<Rightarrow> (table \<times> nat, 'b) threaded" where
  "solver_minimax_hits 0 R s b depth alpha beta maximizing_player = None"
| "solver_minimax_hits (Suc calls) R s b depth alpha beta maximizing_player =
     (case lookup_entry (fst s) (fen R b) depth of
        Some v \<Rightarrow> Some ((v, (fst s, Suc (snd s))), b)
      | None \<Rightarrow>
          if depth = 0
          then map_option (\<lambda>eval. ((eval, ((fst s)(fen R b \<mapsto> (eval, depth)), snd s)), b))
                 (solver_evaluate_board R b)
          else if is_game_over R b
          then map_option (\<lambda>eval. ((eval, ((fst s)(fen R b \<mapsto> (eval, depth)), snd s)), b))
                 (solver_evaluate_board R b)
          else
            (case (if maximizing_player
                   then solver_max_loop
                          (\<lambda>s' b' a bt. solver_minimax_hits calls R s' b' (depth - 1) a bt False)
                          R s b (legal_moves R b) alpha beta NegInf
                   else solver_min_loop
                          (\<lambda>s' b' a bt. solver_minimax_hits calls R s' b' (depth - 1) a bt True)
                          R s b (legal_moves R b) alpha beta PosInf) of
               None \<Rightarrow> None
             | Some ((v, s1), b1) \<Rightarrow>
                 Some ((v, ((fst s1)(fen R b \<mapsto> (v, depth)), snd s1)), b1)))"

definition hsearch :: "nat \<Rightarrow> ('b, 'm) rules \<Rightarrow> int \<Rightarrow> bool \<Rightarrow> table \<times> nat \<Rightarrow> 'b \<Rightarrow> fscore \<Rightarrow> fscore
                        \<Rightarrow> (table \<times> nat, 'b) threaded" where
  "hsearch calls R depth maximizing_player s b alpha beta =
     solver_minimax_hits calls R s b depth alpha beta maximizing_player"

text \<open>
  \<open>find_best_move\<close>: one search per legal move, each at \<open>depth - 1\<close> with the full window,
  the table carried from one to the next. \<open>board.turn\<close> is read after the push to choose
  the side of the search and after the pop to compare. With no legal move the loop body
  never runs.
\<close>

fun best_loop :: "nat \<Rightarrow> ('b, 'm) rules \<Rightarrow> int \<Rightarrow> table \<Rightarrow> 'b \<Rightarrow> 'm list \<Rightarrow> fscore \<Rightarrow> 'm option
                   \<Rightarrow> (('m option \<times> table) \<times> 'b) option" where
  "best_loop calls R depth t b [] best_value best_move = Some ((best_move, t), b)"
| "best_loop calls R depth t b (move # rest) best_value best_move =
     (let b1 = push R b move
      in case solver_minimax calls R t b1 (depth - 1) NegInf PosInf (turn R b1 = Black) of
           None \<Rightarrow> None
         | Some ((current_value, t1), b2) \<Rightarrow>
             (let b3 = pop R b2
              in if turn R b3 = White \<and> current_value > best_value
                 then best_loop calls R depth t1 b3 rest current_value (Some move)
                 else if turn R b3 = Black \<and> current_value < best_value
                 then best_loop calls R depth t1 b3 rest current_value (Some move)
                 else best_loop calls R depth t1 b3 rest best_value best_move))"

definition find_best_move :: "nat \<Rightarrow> ('b, 'm) rules \<Rightarrow> table \<Rightarrow> 'b \<Rightarrow> int
                                \<Rightarrow> (('m option \<times> table) \<times> 'b) option" where
  "find_best_move calls R t b depth =
     best_loop calls R depth t b (legal_moves R b)
       (if turn R b = White then NegInf else PosInf) None"

section \<open>Third program: king and rook against the engine's lone king\<close>

text \<open>
  The third program has its own \<open>evaluate_board\<close>, \<open>evaluate_move\<close> and \<open>get_ai_move\<close>;
  its \<open>minimax\<close> is the text of the first program's, calling these. White has the rook.
  \<open>get_ai_move\<close> has no scan for a mate in one and reads no clock.
\<close>

definition evaluate_board3 :: "('b, 'm) rules \<Rightarrow> 'b \<Rightarrow> int option" where
  "evaluate_board3 R b =
     (if is_checkmate R b then Some (if turn R b = Black then 10000 else - 10000)
      else if is_stalemate R b then Some (- 500)
      else
        (case first_rook R b White of
           None \<Rightarrow> Some 0
         | Some white_rook \<Rightarrow>
             if white_rook = 0 then Some 0
             else
               (case (king R b Black, king R b White) of
                  (Some black_king, Some white_king) \<Rightarrow>
                    (let bk_file = square_file black_king; bk_rank = square_rank black_king;
                         wr_file = square_file white_rook; wr_rank = square_rank white_rook;
                         distance_rook = max \<bar>bk_file - wr_file\<bar> \<bar>bk_rank - wr_rank\<bar>;
                         wk_file = square_file white_king; wk_rank = square_rank white_king;
                         distance_kings = max \<bar>bk_file - wk_file\<bar> \<bar>bk_rank - wk_rank\<bar>;
                         edge_distance =
                           min (min (int (black_king mod 8)) (7 - int (black_king mod 8)))
                               (min (int (black_king div 8)) (7 - int (black_king div 8)));
                         rook_alignment =
                           (if bk_file = wr_file \<or> bk_rank = wr_rank
                            then (if distance_rook > 1 then 5 else 2) else 0);
                         opposition =
                           (if distance_kings = 1 then - 50
                            else if (\<bar>bk_file - wk_file\<bar> = 2 \<and> bk_rank = wk_rank)
                                    \<or> (\<bar>bk_rank - wk_rank\<bar> = 2 \<and> bk_file = wk_file)
                            then 20 else 0);
                         check_bonus = (if is_check R b then 10 else 0);
                         evaluation = 100 - edge_distance * 10 + rook_alignment + opposition
                                      + check_bonus - distance_kings * 2
                     in Some (if turn R b = White then evaluation else - evaluation))
                | _ \<Rightarrow> None)))"

definition evaluate_move3 :: "('b, 'm) rules \<Rightarrow> 'b \<Rightarrow> 'm \<Rightarrow> rat \<times> 'b" where
  "evaluate_move3 R b move =
     (let b1 = push R b move;
          s0 = (if is_checkmate R b1 then 10000
                else if is_check R b1 then 50
                else if is_capture R b1 move then 30 else 0);
          s1 = (if turn R b1 = White
                then (case piece_at R b1 (to_square R move) of
                        Some (Piece King c) \<Rightarrow> s0 + (10 - center_distance (to_square R move))
                      | _ \<Rightarrow> s0)
                else s0)
      in (s1, pop R b1))"

fun move_keys3 :: "('b, 'm) rules \<Rightarrow> 'b \<Rightarrow> 'm list \<Rightarrow> rat list \<times> 'b" where
  "move_keys3 R b [] = ([], b)"
| "move_keys3 R b (m # ms) =
     (let (k, b1) = evaluate_move3 R b m;
          (ks, b2) = move_keys3 R b1 ms
      in (k # ks, b2))"

fun minimax3 :: "('b, 'm) rules \<Rightarrow> 'b \<Rightarrow> nat \<Rightarrow> score \<Rightarrow> score \<Rightarrow> bool \<Rightarrow> ('b, 'm) found" where
  "minimax3 R b 0 alpha beta maximizing_player =
     map_option (\<lambda>v. ((Fin v, None), b)) (evaluate_board3 R b)"
| "minimax3 R b (Suc d) alpha beta maximizing_player =
     (if is_game_over R b then map_option (\<lambda>v. ((Fin v, None), b)) (evaluate_board3 R b)
      else
        (let ms = legal_moves R b;
             (ks, b1) = move_keys3 R b ms;
             sorted = sort_moves maximizing_player ks ms
         in if maximizing_player
            then max_loop (\<lambda>b' a bt. minimax3 R b' d a bt False) R b1 sorted alpha beta NegInf None
            else min_loop (\<lambda>b' a bt. minimax3 R b' d a bt True) R b1 sorted alpha beta PosInf None))"

definition msearch3 :: "('b, 'm) rules \<Rightarrow> nat \<Rightarrow> bool \<Rightarrow> 'b \<Rightarrow> score \<Rightarrow> score \<Rightarrow> ('b, 'm) found" where
  "msearch3 R d maximizing_player b alpha beta = minimax3 R b d alpha beta maximizing_player"

fun deepening3 :: "('b, 'm) rules \<Rightarrow> 'b \<Rightarrow> nat list \<Rightarrow> 'm option \<Rightarrow> ('m option \<times> 'b) option" where
  "deepening3 R b [] best_move = Some (best_move, b)"
| "deepening3 R b (current_depth # rest) best_move =
     (case minimax3 R b current_depth NegInf PosInf (turn R b = White) of
        None \<Rightarrow> None
      | Some ((_, best_move'), b1) \<Rightarrow>
          if is_checkmate R b1 \<or> is_stalemate R b1
          then Some (best_move', b1)
          else deepening3 R b1 rest best_move')"

definition get_ai_move3 :: "('b, 'm) rules \<Rightarrow> 'b \<Rightarrow> nat \<Rightarrow> ('m option \<times> 'b) option" where
  "get_ai_move3 R b depth = deepening3 R b [1..<Suc depth] None"

section \<open>The contract of the rules engine\<close>

text \<open>
  What the search relies on: \<open>pop\<close> undoes \<open>push\<close> exactly. \<open>keeps_board\<close> says of a
  search function that it returns the board it was given.
\<close>

definition restores :: "('b, 'm) rules \<Rightarrow> bool" where
  "restores R = (\<forall>b m. pop R (push R b m) = b)"

definition keeps_board :: "('b \<Rightarrow> score \<Rightarrow> score \<Rightarrow> ('b, 'm) found) \<Rightarrow> bool" where
  "keeps_board search = (\<forall>b a bt r b'. search b a bt = Some (r, b') \<longrightarrow> b' = b)"

text \<open>
  Two more facts about python-chess that some properties need: a position without legal
  moves is checkmate or stalemate, so the game is over; and both kings are on the board,
  so \<open>board.king\<close> finds them.
\<close>

definition ended :: "('b, 'm) rules \<Rightarrow> bool" where
  "ended R = (\<forall>b. legal_moves R b = [] \<longrightarrow> is_game_over R b)"

definition has_kings :: "('b, 'm) rules \<Rightarrow> bool" where
  "has_kings R = (\<forall>b c. king R b c \<noteq> None)"

text \<open>\<open>mate_in_one R b\<close>: some legal move of \<open>b\<close> gives checkmate.\<close>

definition mate_in_one :: "('b, 'm) rules \<Rightarrow> 'b \<Rightarrow> bool" where
  "mate_in_one R b = list_ex (\<lambda>m. is_checkmate R (push R b m)) (legal_moves R b)"

text \<open>
  \<open>fits alpha beta v r\<close>: what a search with the window from \<open>alpha\<close> to \<open>beta\<close> may return
  as \<open>r\<close> when the value without pruning is \<open>v\<close>. Inside the window it is the value
  itself; at or below \<open>alpha\<close>, something at or below \<open>alpha\<close>; at or above \<open>beta\<close>,
  something at or above \<open>beta\<close>.
\<close>

definition fits :: "'a :: linorder \<Rightarrow> 'a \<Rightarrow> 'a \<Rightarrow> 'a \<Rightarrow> bool" where
  "fits alpha beta v r =
     ((v \<le> alpha \<longrightarrow> r \<le> alpha) \<and> (beta \<le> v \<longrightarrow> beta \<le> r) \<and> (alpha < v \<and> v < beta \<longrightarrow> r = v))"

section \<open>A rules engine for kings and one rook\<close>

text \<open>
  A concrete engine on which the definitions can be run: chess with the two kings and at
  most one rook, no castling rights (as after \<open>board.clear()\<close>). A board is the current
  position together with the stack of positions that \<open>pop\<close> restores. Legal moves come in
  python-chess order: pieces from the highest square down, targets from the highest square
  down. Draws by repetition are not modelled: the boards used below start with an empty
  stack and are searched a few plies deep, where no position can have occurred three times.
  \<open>pop\<close> on an empty stack raises \<open>IndexError\<close> in Python; every \<open>pop\<close> of the engine
  follows its \<open>push\<close>, and the case is modelled as leaving the board alone.
\<close>

record kpos =
  to_move :: color
  wking :: square
  bking :: square
  rook :: "(color \<times> square) option"
  halfmove_clock :: nat
  fullmove_number :: nat

type_synonym kboard = "kpos \<times> kpos list"

type_synonym kmove = "square \<times> square"

definition other :: "color \<Rightarrow> color" where
  "other c = (if c = White then Black else White)"

definition king_of :: "kpos \<Rightarrow> color \<Rightarrow> square" where
  "king_of p c = (if c = White then wking p else bking p)"

definition rook_of :: "kpos \<Rightarrow> color \<Rightarrow> square option" where
  "rook_of p c = (case rook p of Some (c', r) \<Rightarrow> if c' = c then Some r else None | None \<Rightarrow> None)"

definition adjacent :: "square \<Rightarrow> square \<Rightarrow> bool" where
  "adjacent a b =
     (a \<noteq> b \<and> a mod 8 \<le> b mod 8 + 1 \<and> b mod 8 \<le> a mod 8 + 1
      \<and> a div 8 \<le> b div 8 + 1 \<and> b div 8 \<le> a div 8 + 1)"

text \<open>\<open>between a b q\<close>: \<open>q\<close> lies strictly between \<open>a\<close> and \<open>b\<close> on their common rank or file.\<close>

definition between :: "square \<Rightarrow> square \<Rightarrow> square \<Rightarrow> bool" where
  "between a b q =
     (min a b < q \<and> q < max a b
      \<and> ((q div 8 = a div 8 \<and> a div 8 = b div 8) \<or> (q mod 8 = a mod 8 \<and> a mod 8 = b mod 8)))"

definition rook_attacks :: "kpos \<Rightarrow> square \<Rightarrow> square \<Rightarrow> bool" where
  "rook_attacks p r t =
     (t \<noteq> r \<and> (t div 8 = r div 8 \<or> t mod 8 = r mod 8)
      \<and> \<not> between r t (wking p) \<and> \<not> between r t (bking p))"

definition attacked_by :: "kpos \<Rightarrow> color \<Rightarrow> square \<Rightarrow> bool" where
  "attacked_by p c t =
     (if adjacent (king_of p c) t then True
      else (case rook_of p c of Some r \<Rightarrow> rook_attacks p r t | None \<Rightarrow> False))"

definition in_check :: "kpos \<Rightarrow> bool" where
  "in_check p = attacked_by p (other (to_move p)) (king_of p (to_move p))"

definition make_move :: "kpos \<Rightarrow> kmove \<Rightarrow> kpos" where
  "make_move p m =
     (let c = to_move p; f = fst m; t = snd m;
          capture = (rook_of p (other c) = Some t);
          r = (if capture then None
               else if f = king_of p c then rook p else Some (c, t))
      in \<lparr>to_move = other c,
          wking = (if c = White \<and> f = wking p then t else wking p),
          bking = (if c = Black \<and> f = bking p then t else bking p),
          rook = r,
          halfmove_clock = (if capture then 0 else Suc (halfmove_clock p)),
          fullmove_number = (if c = Black then Suc (fullmove_number p)
                             else fullmove_number p)\<rparr>)"

text \<open>The eight king steps from a square, from the highest target square down.\<close>

definition king_steps :: "square \<Rightarrow> square list" where
  "king_steps k =
     (let f = k mod 8; r = k div 8
      in (if r < 7 \<and> f < 7 then [k + 9] else [])
         @ (if r < 7 then [k + 8] else [])
         @ (if r < 7 \<and> 0 < f then [k + 7] else [])
         @ (if f < 7 then [k + 1] else [])
         @ (if 0 < f then [k - 1] else [])
         @ (if 0 < r \<and> f < 7 then [k - 7] else [])
         @ (if 0 < r then [k - 8] else [])
         @ (if 0 < r \<and> 0 < f then [k - 9] else []))"

text \<open>
  \<open>slide occ next s n\<close>: the squares a rook passes from \<open>s\<close> in one direction, at most
  \<open>n\<close> of them, nearest first, up to and including the first occupied one.
\<close>

fun slide :: "(square \<Rightarrow> bool) \<Rightarrow> (square \<Rightarrow> square) \<Rightarrow> square \<Rightarrow> nat \<Rightarrow> square list" where
  "slide occ next s 0 = []"
| "slide occ next s (Suc n) =
     (let t = next s in if occ t then [t] else t # slide occ next t n)"

definition occupied :: "kpos \<Rightarrow> square \<Rightarrow> bool" where
  "occupied p s = (s = wking p \<or> s = bking p \<or> (case rook p of Some (c, r) \<Rightarrow> s = r | None \<Rightarrow> False))"

definition rook_targets :: "kpos \<Rightarrow> square \<Rightarrow> square list" where
  "rook_targets p r =
     filter (\<lambda>t. t \<noteq> wking p \<and> t \<noteq> bking p)
       (rev (slide (occupied p) (\<lambda>s. s + 8) r (7 - r div 8))
        @ rev (slide (occupied p) (\<lambda>s. s + 1) r (7 - r mod 8))
        @ slide (occupied p) (\<lambda>s. s - 1) r (r mod 8)
        @ slide (occupied p) (\<lambda>s. s - 8) r (r div 8))"

definition king_targets :: "kpos \<Rightarrow> square list" where
  "king_targets p =
     (let c = to_move p
      in filter (\<lambda>t. rook_of p c \<noteq> Some t \<and> t \<noteq> king_of p (other c))
           (king_steps (king_of p c)))"

definition pseudo_legal :: "kpos \<Rightarrow> kmove list" where
  "pseudo_legal p =
     (let c = to_move p; k = king_of p c;
          kms = map (Pair k) (king_targets p)
      in case rook_of p c of
           None \<Rightarrow> kms
         | Some r \<Rightarrow> (if r > k then map (Pair r) (rook_targets p r) @ kms
                      else kms @ map (Pair r) (rook_targets p r)))"

text \<open>A move is legal when it does not leave the mover's king attacked.\<close>

definition safe :: "kpos \<Rightarrow> kmove \<Rightarrow> bool" where
  "safe p m = (let q = make_move p m
               in \<not> attacked_by q (to_move q) (king_of q (to_move p)))"

definition krk_legal :: "kpos \<Rightarrow> kmove list" where
  "krk_legal p = filter (safe p) (pseudo_legal p)"

definition occupied_by :: "kpos \<Rightarrow> color \<Rightarrow> square \<Rightarrow> bool" where
  "occupied_by p c s = (s = king_of p c \<or> rook_of p c = Some s)"

definition krk_piece_at :: "kpos \<Rightarrow> square \<Rightarrow> piece option" where
  "krk_piece_at p s =
     (if s = wking p then Some (Piece King White)
      else if s = bking p then Some (Piece King Black)
      else (case rook p of
              Some (c, r) \<Rightarrow> if s = r then Some (Piece Rook c) else None
            | None \<Rightarrow> None))"

text \<open>The key of a position: the fields a FEN string records.\<close>

definition krk_fen :: "kpos \<Rightarrow> string" where
  "krk_fen p =
     [if to_move p = White then CHR ''w'' else CHR ''b'',
      char_of (wking p), char_of (bking p),
      (case rook p of None \<Rightarrow> CHR ''-''
       | Some (c, r) \<Rightarrow> if c = White then CHR ''R'' else CHR ''r''),
      (case rook p of None \<Rightarrow> CHR ''-'' | Some (c, r) \<Rightarrow> char_of r),
      char_of (halfmove_clock p), char_of (fullmove_number p)]"

definition halfmoves :: "kpos \<Rightarrow> nat \<Rightarrow> bool" where
  "halfmoves p n = (if halfmove_clock p < n then False else krk_legal p \<noteq> [])"

definition krk_legal_moves :: "kboard \<Rightarrow> kmove list" where
  "krk_legal_moves b = krk_legal (fst b)"

definition krk_push :: "kboard \<Rightarrow> kmove \<Rightarrow> kboard" where
  "krk_push b m = (make_move (fst b) m, fst b # snd b)"

definition krk_pop :: "kboard \<Rightarrow> kboard" where
  "krk_pop b = (case snd b of [] \<Rightarrow> b | p # ps \<Rightarrow> (p, ps))"

definition krk_turn :: "kboard \<Rightarrow> color" where
  "krk_turn b = to_move (fst b)"

definition krk_is_check :: "kboard \<Rightarrow> bool" where
  "krk_is_check b = in_check (fst b)"

definition krk_is_checkmate :: "kboard \<Rightarrow> bool" where
  "krk_is_checkmate b = (if in_check (fst b) then krk_legal (fst b) = [] else False)"

definition krk_is_stalemate :: "kboard \<Rightarrow> bool" where
  "krk_is_stalemate b = (if in_check (fst b) then False else krk_legal (fst b) = [])"

definition krk_is_insufficient_material :: "kboard \<Rightarrow> bool" where
  "krk_is_insufficient_material b = (rook (fst b) = None)"

text \<open>
  \<open>is_game_over\<close>: checkmate, stalemate, insufficient material or the seventy-five-move
  rule. \<open>can_claim_draw\<close>: the fifty-move rule, now or after one legal move that neither
  captures nor moves a pawn.
\<close>

definition krk_is_game_over :: "kboard \<Rightarrow> bool" where
  "krk_is_game_over b =
     (if rook (fst b) = None then True
      else if krk_legal (fst b) = [] then True
      else halfmoves (fst b) 150)"

definition krk_can_claim_draw :: "kboard \<Rightarrow> bool" where
  "krk_can_claim_draw b =
     (if halfmove_clock (fst b) < 99 then False
      else if halfmoves (fst b) 100 then True
      else list_ex (\<lambda>m. rook_of (fst b) (other (to_move (fst b))) \<noteq> Some (snd m)
                         \<and> halfmoves (make_move (fst b) m) 100)
             (krk_legal (fst b)))"

definition krk_king :: "kboard \<Rightarrow> color \<Rightarrow> square option" where
  "krk_king b c = Some (king_of (fst b) c)"

definition krk_piece :: "kboard \<Rightarrow> square \<Rightarrow> piece option" where
  "krk_piece b s = krk_piece_at (fst b) s"

text \<open>
  \<open>is_capture\<close> and \<open>is_castling\<close> as python-chess computes them from the squares of the
  move: a capture when the other side holds the from-square or the to-square; castling
  when a king stands on the from-square and the move spans more than one file or lands on
  a rook of the side to move.
\<close>

definition krk_is_capture :: "kboard \<Rightarrow> kmove \<Rightarrow> bool" where
  "krk_is_capture b m =
     (occupied_by (fst b) (other (to_move (fst b))) (fst m)
      \<or> occupied_by (fst b) (other (to_move (fst b))) (snd m))"

definition krk_is_castling :: "kboard \<Rightarrow> kmove \<Rightarrow> bool" where
  "krk_is_castling b m =
     ((fst m = wking (fst b) \<or> fst m = bking (fst b))
      \<and> (\<bar>square_file (fst m) - square_file (snd m)\<bar> > 1
         \<or> rook_of (fst b) (to_move (fst b)) = Some (snd m)))"

definition krk_to_square :: "kmove \<Rightarrow> square" where
  "krk_to_square m = snd m"

definition krk_board_fen :: "kboard \<Rightarrow> string" where
  "krk_board_fen b = krk_fen (fst b)"

definition krk :: "(kboard, kmove) rules" where
  "krk =
     \<lparr>legal_moves = krk_legal_moves,
      push = krk_push,
      pop = krk_pop,
      turn = krk_turn,
      is_checkmate = krk_is_checkmate,
      is_stalemate = krk_is_stalemate,
      is_check = krk_is_check,
      is_game_over = krk_is_game_over,
      is_insufficient_material = krk_is_insufficient_material,
      can_claim_draw = krk_can_claim_draw,
      king = krk_king,
      piece_at = krk_piece,
      is_capture = krk_is_capture,
      is_castling = krk_is_castling,
      to_square = krk_to_square,
      fen = krk_board_fen\<rparr>"

text \<open>A board set up by hand: no move played yet, clock 0, move number 1.\<close>

definition start :: "color \<Rightarrow> square \<Rightarrow> square \<Rightarrow> (color \<times> square) option \<Rightarrow> kboard" where
  "start c w b r =
     (\<lparr>to_move = c, wking = w, bking = b, rook = r, halfmove_clock = 0, fullmove_number = 1\<rparr>, [])"

section \<open>Properties\<close>

subsection \<open>Equations for running the search\<close>

lemma msearch_eq: "msearch R d f = (\<lambda>b' a bt. minimax R b' d a bt f)"
  by (intro ext) (simp add: msearch_def)

lemma minimax_code [code]:
  "minimax R b 0 alpha beta maximizing_player =
     map_option (\<lambda>v. ((Fin v, None), b)) (evaluate_board R b)"
  "minimax R b (Suc d) alpha beta maximizing_player =
     (if is_game_over R b then map_option (\<lambda>v. ((Fin v, None), b)) (evaluate_board R b)
      else
        (let ms = legal_moves R b;
             (ks, b1) = move_keys R b ms;
             sorted = sort_moves maximizing_player ks ms
         in if maximizing_player
            then max_loop (msearch R d False) R b1 sorted alpha beta NegInf None
            else min_loop (msearch R d True) R b1 sorted alpha beta PosInf None))"
  unfolding msearch_eq by (rule minimax.simps)+

subsection \<open>Every search returns the board it was given\<close>

lemma evaluate_move_board: "restores R \<Longrightarrow> snd (evaluate_move R b m) = b"
  by (simp add: evaluate_move_def restores_def Let_def)

lemma move_keys_board: "restores R \<Longrightarrow> snd (move_keys R b ms) = b"
proof (induction ms arbitrary: b)
  case Nil
  show ?case by simp
next
  case (Cons m ms)
  obtain k b1 where e: "evaluate_move R b m = (k, b1)" by (cases "evaluate_move R b m")
  with Cons.prems have "b1 = b" using evaluate_move_board [of R b m] by simp
  moreover obtain ks b2 where r: "move_keys R b ms = (ks, b2)" by (cases "move_keys R b ms")
  moreover have "b2 = b" using Cons.IH [OF Cons.prems, of b] r by simp
  ultimately show ?case using e by simp
qed

lemma max_loop_board:
  assumes "restores R" and "keeps_board search"
  shows "max_loop search R b ms alpha beta me bm = Some (r, b') \<Longrightarrow> b' = b"
proof (induction ms arbitrary: alpha me bm)
  case Nil
  then show ?case by simp
next
  case (Cons m ms)
  from Cons.prems obtain ev mv b1 where s: "search (push R b m) alpha beta = Some ((ev, mv), b1)"
    by (auto split: option.splits)
  with assms(2) have "b1 = push R b m" unfolding keeps_board_def by blast
  with assms(1) have b1: "pop R b1 = b" by (simp add: restores_def)
  show ?case
  proof (cases "beta \<le> max alpha ev")
    case True
    with Cons.prems s b1 show ?thesis by (simp add: Let_def)
  next
    case False
    with Cons.prems s b1 have
      "max_loop search R b ms (max alpha ev) beta (if ev > me then ev else me)
         (if ev > me then Some m else bm) = Some (r, b')"
      by (simp add: Let_def)
    then show ?thesis by (rule Cons.IH)
  qed
qed

lemma min_loop_board:
  assumes "restores R" and "keeps_board search"
  shows "min_loop search R b ms alpha beta me bm = Some (r, b') \<Longrightarrow> b' = b"
proof (induction ms arbitrary: beta me bm)
  case Nil
  then show ?case by simp
next
  case (Cons m ms)
  from Cons.prems obtain ev mv b1 where s: "search (push R b m) alpha beta = Some ((ev, mv), b1)"
    by (auto split: option.splits)
  with assms(2) have "b1 = push R b m" unfolding keeps_board_def by blast
  with assms(1) have b1: "pop R b1 = b" by (simp add: restores_def)
  show ?case
  proof (cases "min beta ev \<le> alpha")
    case True
    with Cons.prems s b1 show ?thesis by (simp add: Let_def)
  next
    case False
    with Cons.prems s b1 have
      "min_loop search R b ms alpha (min beta ev) (if ev < me then ev else me)
         (if ev < me then Some m else bm) = Some (r, b')"
      by (simp add: Let_def)
    then show ?thesis by (rule Cons.IH)
  qed
qed

lemma minimax_board:
  assumes "restores R"
  shows "minimax R b d alpha beta mx = Some (r, b') \<Longrightarrow> b' = b"
proof (induction d arbitrary: b alpha beta mx r b')
  case 0
  then show ?case by auto
next
  case (Suc d)
  have k: "keeps_board (\<lambda>b' a bt. minimax R b' d a bt f)" for f
    unfolding keeps_board_def using Suc.IH by blast
  show ?case
  proof (cases "is_game_over R b")
    case True
    with Suc.prems show ?thesis by auto
  next
    case False
    obtain ks b1 where mk: "move_keys R b (legal_moves R b) = (ks, b1)"
      by (cases "move_keys R b (legal_moves R b)")
    with assms have "b1 = b" using move_keys_board [of R b "legal_moves R b"] by simp
    with False mk Suc.prems show ?thesis
      by (auto simp: Let_def split: if_splits
          dest: max_loop_board [OF assms k] min_loop_board [OF assms k])
  qed
qed

lemma mate_scan_board: "restores R \<Longrightarrow> snd (mate_scan R b ms) = b"
  by (induction ms) (simp_all add: Let_def restores_def)

lemma deepening_board:
  assumes "restores R"
  shows "deepening R late b ds bm = Some (r, b') \<Longrightarrow> b' = b"
proof (induction ds arbitrary: b bm)
  case Nil
  then show ?case by simp
next
  case (Cons d ds)
  from Cons.prems obtain v mv b1 where
    s: "minimax R b d NegInf PosInf (turn R b = Black) = Some ((v, mv), b1)"
    by (auto split: option.splits)
  then have "b1 = b" using minimax_board [OF assms] by blast
  with Cons.prems s show ?case by (auto split: if_splits dest: Cons.IH)
qed

lemma get_ai_move_board:
  assumes "restores R"
  shows "get_ai_move R late b depth = Some (r, b') \<Longrightarrow> b' = b"
  using mate_scan_board [OF assms, of b "legal_moves R b"]
  by (auto simp: get_ai_move_def split: prod.splits option.splits dest: deepening_board [OF assms])

subsection \<open>Runs on the concrete engine\<close>

text \<open>
  The position used below: White king h1, Black king g3, Black rook a8, White to move.
  White's only legal move is Kg1.
\<close>

lemma krk_restores: "restores krk"
  by (simp add: restores_def krk_def krk_pop_def krk_push_def)

lemma run_evaluate_move:
  "fst (evaluate_move krk (start White 7 22 (Some (Black, 56))) (7, 6)) = 69 / 2"
  by code_simp

lemma run_minimax:
  "map_option fst (minimax krk (start White 7 22 (Some (Black, 56))) 1 NegInf PosInf False)
     = Some (Fin 85, Some (7, 6))"
  by code_simp

lemma run_get_ai_move:
  "map_option fst (get_ai_move krk (\<lambda>_. False) (start White 7 22 (Some (Black, 56))) 1)
     = Some (Some (7, 6))"
  by code_simp

lemma found_board:
  "map_option fst x = Some r \<Longrightarrow> (\<forall>r b'. x = Some (r, b') \<longrightarrow> b' = b) \<Longrightarrow> x = Some (r, b)"
  by auto

subsection \<open>C7: searching leaves the position as it was\<close>

text \<open>
  Claim C7. Over a rules engine whose \<open>pop\<close> undoes \<open>push\<close>, the move-ordering probe
  \<open>evaluate_move\<close>, the search \<open>minimax\<close> and the chooser \<open>get_ai_move\<close> each hand back
  exactly the board they were given, for every depth and window, whenever they return:
  after a cutoff, after the scan for a mate in one, and after a full search alike.
\<close>

theorem search_leaves_board:
  assumes "restores R"
  shows "snd (evaluate_move R b m) = b
    \<and> (\<forall>r b'. minimax R b d alpha beta mx = Some (r, b') \<longrightarrow> b' = b)
    \<and> (\<forall>r b'. get_ai_move R late b depth = Some (r, b') \<longrightarrow> b' = b)"
  using evaluate_move_board [OF assms] minimax_board [OF assms] get_ai_move_board [OF assms]
  by blast

theorem search_leaves_board_witness:
  "restores krk
   \<and> evaluate_move krk (start White 7 22 (Some (Black, 56))) (7, 6)
       = (69 / 2, start White 7 22 (Some (Black, 56)))
   \<and> minimax krk (start White 7 22 (Some (Black, 56))) 1 NegInf PosInf False
       = Some ((Fin 85, Some (7, 6)), start White 7 22 (Some (Black, 56)))
   \<and> get_ai_move krk (\<lambda>_. False) (start White 7 22 (Some (Black, 56))) 1
       = Some (Some (7, 6), start White 7 22 (Some (Black, 56)))"
proof -
  note t = search_leaves_board [OF krk_restores, of "start White 7 22 (Some (Black, 56))"
      "(7, 6)" 1 NegInf PosInf False "\<lambda>_. False" 1]
  from t run_evaluate_move
  have e: "evaluate_move krk (start White 7 22 (Some (Black, 56))) (7, 6)
       = (69 / 2, start White 7 22 (Some (Black, 56)))"
    by (simp only: prod_eq_iff fst_conv snd_conv)
  from t have m: "minimax krk (start White 7 22 (Some (Black, 56))) 1 NegInf PosInf False
       = Some ((Fin 85, Some (7, 6)), start White 7 22 (Some (Black, 56)))"
    by (intro found_board [OF run_minimax]) (rule conjunct1 [OF conjunct2])
  from t have g: "get_ai_move krk (\<lambda>_. False) (start White 7 22 (Some (Black, 56))) 1
       = Some (Some (7, 6), start White 7 22 (Some (Black, 56)))"
    by (intro found_board [OF run_get_ai_move]) (rule conjunct2 [OF conjunct2])
  from krk_restores e m g show ?thesis by (intro conjI)
qed

subsection \<open>C4: the evaluators when the expected rook is missing\<close>

lemma run_bare_kings:
  "\<not> is_checkmate krk (start White 4 60 None) \<and> \<not> is_stalemate krk (start White 4 60 None)
   \<and> first_rook krk (start White 4 60 None) Black = None
   \<and> first_rook krk (start White 4 60 None) White = None"
  by code_simp

lemma run_black_rook:
  "\<not> is_checkmate krk (start White 7 22 (Some (Black, 56)))
   \<and> \<not> is_stalemate krk (start White 7 22 (Some (Black, 56)))
   \<and> \<not> is_insufficient_material krk (start White 7 22 (Some (Black, 56)))
   \<and> \<not> can_claim_draw krk (start White 7 22 (Some (Black, 56)))
   \<and> first_rook krk (start White 7 22 (Some (Black, 56))) White = None"
  by code_simp

text \<open>
  Claim C4, as the code has it. In a position that is neither checkmate nor stalemate
  and has no rook of the colour the evaluator looks for, the evaluators of the first and
  the third program return 0. The evaluator of the solver does not: when the position
  is no draw either, it returns minus infinity, the value of a lost game.
\<close>

theorem absent_rook_scores:
  "(\<not> is_checkmate R b \<and> \<not> is_stalemate R b \<and> first_rook R b Black = None
      \<longrightarrow> evaluate_board R b = Some 0)
   \<and> (\<not> is_checkmate R b \<and> \<not> is_stalemate R b \<and> first_rook R b White = None
      \<longrightarrow> evaluate_board3 R b = Some 0)
   \<and> (\<not> is_checkmate R b \<and> \<not> is_stalemate R b \<and> \<not> is_insufficient_material R b
       \<and> \<not> can_claim_draw R b \<and> first_rook R b White = None
      \<longrightarrow> solver_evaluate_board R b = Some NegInf)"
  by (simp add: evaluate_board_def evaluate_board3_def solver_evaluate_board_def)

theorem absent_rook_scores_witness:
  "evaluate_board krk (start White 4 60 None) = Some 0
   \<and> evaluate_board3 krk (start White 4 60 None) = Some 0
   \<and> solver_evaluate_board krk (start White 7 22 (Some (Black, 56))) = Some NegInf"
  using absent_rook_scores [of krk "start White 4 60 None"]
    absent_rook_scores [of krk "start White 7 22 (Some (Black, 56))"]
    run_bare_kings run_black_rook
  by blast

text \<open>
  Against claim C4 as stated: White king h1, Black king g3, Black rook a8, White to move.
  The game is not over, no draw can be claimed, White has no rook, and the solver's
  evaluator does not return 0.
\<close>

theorem absent_rook_counterexample:
  "first_rook krk (start White 7 22 (Some (Black, 56))) White = None
   \<and> \<not> is_game_over krk (start White 7 22 (Some (Black, 56)))
   \<and> \<not> can_claim_draw krk (start White 7 22 (Some (Black, 56)))
   \<and> solver_evaluate_board krk (start White 7 22 (Some (Black, 56))) \<noteq> Some (Fin 0)"
  by code_simp

subsection \<open>C5: the evaluators on drawn positions\<close>

lemma run_stalemate:
  "\<not> is_checkmate krk (start Black 40 56 (Some (White, 1)))
   \<and> is_stalemate krk (start Black 40 56 (Some (White, 1)))"
  by code_simp

text \<open>
  Claim C5, as the code has it. On a stalemate the evaluator of the first program
  returns 0. The evaluator of the solver returns 0 on a stalemate, on insufficient
  material and on a claimable draw. The evaluator of the third program returns -500 on
  a stalemate. (A position is never both checkmate and stalemate; the engine being a
  parameter, that is said in the hypothesis.)
\<close>

theorem draw_scores:
  "(\<not> is_checkmate R b \<and> is_stalemate R b \<longrightarrow> evaluate_board R b = Some 0)
   \<and> (\<not> is_checkmate R b
       \<and> (is_stalemate R b \<or> is_insufficient_material R b \<or> can_claim_draw R b)
      \<longrightarrow> solver_evaluate_board R b = Some (Fin 0))
   \<and> (\<not> is_checkmate R b \<and> is_stalemate R b \<longrightarrow> evaluate_board3 R b = Some (- 500))"
  by (simp add: evaluate_board_def evaluate_board3_def solver_evaluate_board_def)

theorem draw_scores_witness:
  "evaluate_board krk (start Black 40 56 (Some (White, 1))) = Some 0
   \<and> solver_evaluate_board krk (start Black 40 56 (Some (White, 1))) = Some (Fin 0)
   \<and> evaluate_board3 krk (start Black 40 56 (Some (White, 1))) = Some (- 500)"
  using draw_scores [of krk "start Black 40 56 (Some (White, 1))"] run_stalemate
  by blast

text \<open>
  Against claim C5 as stated: Black king a8, White king a6, White rook b1, Black to move,
  is a stalemate, and the evaluator of the third program does not return 0 on it.
\<close>

theorem stalemate_counterexample:
  "is_stalemate krk (start Black 40 56 (Some (White, 1)))
   \<and> evaluate_board3 krk (start Black 40 56 (Some (White, 1))) \<noteq> Some 0"
  by code_simp

subsection \<open>C6: heuristic scores and the mate score\<close>

text \<open>
  The heuristic of the first program stays within 165 of zero on every position that is
  not checkmate, far from the mate score 10000, provided the kings stand on squares of
  the board.
\<close>

lemma file_bounds: "0 \<le> square_file s" "square_file s \<le> 7"
  by (simp_all add: square_file_def)

lemma rank_bounds: "0 \<le> square_rank s" "s < 64 \<Longrightarrow> square_rank s \<le> 7"
  by (simp_all add: square_rank_def)

lemma edge_bounds:
  fixes wf wr :: int
  assumes "0 \<le> wf" "wf \<le> 7" "0 \<le> wr" "wr \<le> 7"
  shows "0 \<le> min (min wf (7 - wf)) (min wr (7 - wr))" "min (min wf (7 - wf)) (min wr (7 - wr)) \<le> 3"
  using assms by (simp_all add: min_def)

lemma evaluate_board_bounded:
  assumes "evaluate_board R b = Some v" "\<not> is_checkmate R b"
    and k: "\<forall>c s. king R b c = Some s \<longrightarrow> s < 64"
  shows "\<bar>v\<bar> \<le> 165"
proof (cases "is_stalemate R b \<or> first_rook R b Black = None \<or> first_rook R b Black = Some 0")
  case True
  with assms show ?thesis by (auto simp: evaluate_board_def split: if_splits)
next
  case False
  then obtain r where r: "first_rook R b Black = Some r" "r \<noteq> 0" by auto
  with assms False obtain wk bk where ks: "king R b White = Some wk" "king R b Black = Some bk"
    by (auto simp: evaluate_board_def split: option.splits)
  from k ks have "wk < 64" by blast
  note fb = file_bounds [of wk] rank_bounds(1) [of wk] rank_bounds(2) [OF \<open>wk < 64\<close>]
  define e where "e = min (min (square_file wk) (7 - square_file wk)) (min (square_rank wk) (7 - square_rank wk))"
  have eb: "0 \<le> e" "e \<le> 3" unfolding e_def by (rule edge_bounds [OF fb])+
  from assms(1,2) False r ks eb show ?thesis
    by (simp add: evaluate_board_def Let_def e_def [symmetric] split: if_splits)
qed

text \<open>
  Claim C6 fails in the solver. White king c3, Black king h8, White rook a1, White to move:
  the rook is on the board, the game is not over and no draw can be claimed, yet the
  evaluator returns minus infinity, which is the score it gives to a checkmate of White.
  With the rook one square to the right, on b1, the same position scores 64.
\<close>

theorem rook_on_a1_scores_as_mate:
  "piece_at krk (start White 18 63 (Some (White, 0))) 0 = Some (Piece Rook White)
   \<and> \<not> is_game_over krk (start White 18 63 (Some (White, 0)))
   \<and> \<not> can_claim_draw krk (start White 18 63 (Some (White, 0)))
   \<and> solver_evaluate_board krk (start White 18 63 (Some (White, 0))) = Some NegInf
   \<and> solver_evaluate_board krk (start White 18 63 (Some (White, 1))) = Some (Fin 64)"
  by code_simp

subsection \<open>The order on scores\<close>

lemma ext_less [simp]:
  "NegInf < Fin a" "Fin a < PosInf" "NegInf < (PosInf :: 'a :: linorder ext)"
  "(Fin a < Fin b) = (a < b)"
  "\<not> x < (NegInf :: 'a ext)" "\<not> (PosInf :: 'a ext) < x"
  "(NegInf :: 'a ext) \<le> x" "x \<le> (PosInf :: 'a ext)"
  by (cases x; auto simp: less_ext_def)+

subsection \<open>The search returns a finite score and, below the root, a move\<close>

lemma evaluate_board_total:
  assumes "has_kings R"
  shows "\<exists>v. evaluate_board R b = Some v"
proof -
  from assms obtain wk bk where "king R b White = Some wk" "king R b Black = Some bk"
    unfolding has_kings_def by (metis option.exhaust)
  then show ?thesis
    by (simp add: evaluate_board_def Let_def split: option.splits)
qed

lemma move_keys_length: "length (fst (move_keys R b ms)) = length ms"
proof (induction ms arbitrary: b)
  case Nil
  show ?case by simp
next
  case (Cons m ms)
  obtain k b1 where e: "evaluate_move R b m = (k, b1)" by (cases "evaluate_move R b m")
  obtain ks b2 where r: "move_keys R b1 ms = (ks, b2)" by (cases "move_keys R b1 ms")
  from Cons [of b1] r have "length ks = length ms" by simp
  with e r show ?case by simp
qed

lemma sort_moves_set: "length ks = length ms \<Longrightarrow> set (sort_moves r ks ms) = set ms"
proof -
  assume l: "length ks = length ms"
  have "set (sort_moves r ks ms) = snd ` set (zip ks ms)"
    by (simp add: sort_moves_def)
  also have "\<dots> = set (map snd (zip ks ms))" by simp
  also have "\<dots> = set ms" using l by (simp only: map_snd_zip)
  finally show ?thesis .
qed

lemma max_loop_finds:
  assumes r: "restores R"
    and s: "\<And>b a bt. \<exists>v x. search b a bt = Some ((Fin v, x), b)"
  shows "set ms \<subseteq> S
    \<Longrightarrow> (me = NegInf \<and> best = None \<and> ms \<noteq> []) \<or> (\<exists>v m. me = Fin v \<and> best = Some m \<and> m \<in> S)
    \<Longrightarrow> \<exists>v m. max_loop search R b ms alpha beta me best = Some ((Fin v, Some m), b) \<and> m \<in> S"
proof (induction ms arbitrary: b alpha me best)
  case Nil
  then show ?case by auto
next
  case (Cons move rest)
  from s obtain v x where c: "search (push R b move) alpha beta = Some ((Fin v, x), push R b move)"
    by blast
  from r have p: "pop R (push R b move) = b" by (simp add: restores_def)
  let ?me = "if Fin v > me then Fin v else me"
  let ?best = "if Fin v > me then Some move else best"
  from Cons.prems have g: "\<exists>v' m. ?me = Fin v' \<and> ?best = Some m \<and> m \<in> S"
    by auto
  show ?case
  proof (cases "beta \<le> max alpha (Fin v)")
    case True
    with c p g show ?thesis by (simp add: Let_def)
  next
    case False
    from Cons.prems(1) have "set rest \<subseteq> S" by simp
    from Cons.IH [OF this, of ?me ?best b "max alpha (Fin v)"] g
    have "\<exists>v' m. max_loop search R b rest (max alpha (Fin v)) beta ?me ?best = Some ((Fin v', Some m), b) \<and> m \<in> S"
      by blast
    with c p False show ?thesis by (simp add: Let_def)
  qed
qed

lemma min_loop_finds:
  assumes r: "restores R"
    and s: "\<And>b a bt. \<exists>v x. search b a bt = Some ((Fin v, x), b)"
  shows "set ms \<subseteq> S
    \<Longrightarrow> (me = PosInf \<and> best = None \<and> ms \<noteq> []) \<or> (\<exists>v m. me = Fin v \<and> best = Some m \<and> m \<in> S)
    \<Longrightarrow> \<exists>v m. min_loop search R b ms alpha beta me best = Some ((Fin v, Some m), b) \<and> m \<in> S"
proof (induction ms arbitrary: b beta me best)
  case Nil
  then show ?case by auto
next
  case (Cons move rest)
  from s obtain v x where c: "search (push R b move) alpha beta = Some ((Fin v, x), push R b move)"
    by blast
  from r have p: "pop R (push R b move) = b" by (simp add: restores_def)
  let ?me = "if Fin v < me then Fin v else me"
  let ?best = "if Fin v < me then Some move else best"
  from Cons.prems have g: "\<exists>v' m. ?me = Fin v' \<and> ?best = Some m \<and> m \<in> S"
    by auto
  show ?case
  proof (cases "min beta (Fin v) \<le> alpha")
    case True
    with c p g show ?thesis by (simp add: Let_def)
  next
    case False
    from Cons.prems(1) have "set rest \<subseteq> S" by simp
    from Cons.IH [OF this, of ?me ?best b "min beta (Fin v)"] g
    have "\<exists>v' m. min_loop search R b rest alpha (min beta (Fin v)) ?me ?best = Some ((Fin v', Some m), b) \<and> m \<in> S"
      by blast
    with c p False show ?thesis by (simp add: Let_def)
  qed
qed

lemma minimax_finite:
  assumes r: "restores R" and e: "ended R" and k: "has_kings R"
  shows "\<exists>v x. minimax R b d alpha beta mx = Some ((Fin v, x), b)
     \<and> (x = None \<longleftrightarrow> d = 0 \<or> is_game_over R b)
     \<and> (\<forall>m. x = Some m \<longrightarrow> m \<in> set (legal_moves R b))"
proof (induction d arbitrary: b alpha beta mx)
  case 0
  from evaluate_board_total [OF k, of b] show ?case by auto
next
  case (Suc d)
  show ?case
  proof (cases "is_game_over R b")
    case True
    with evaluate_board_total [OF k, of b] show ?thesis by auto
  next
    case False
    with e have ne: "legal_moves R b \<noteq> []" by (auto simp: ended_def)
    obtain ks b1 where mk: "move_keys R b (legal_moves R b) = (ks, b1)" by (cases "move_keys R b (legal_moves R b)")
    with move_keys_board [OF r, of b "legal_moves R b"] have b1: "b1 = b" by simp
    from mk move_keys_length [of R b "legal_moves R b"] have l: "length ks = length (legal_moves R b)" by simp
    let ?sorted = "sort_moves mx ks (legal_moves R b)"
    from sort_moves_set [OF l] have ss: "set ?sorted = set (legal_moves R b)" .
    with ne have sne: "?sorted \<noteq> []" by auto
    have sT: "\<And>b a bt. \<exists>v x. minimax R b d a bt True = Some ((Fin v, x), b)"
      using Suc.IH by blast
    have sF: "\<And>b a bt. \<exists>v x. minimax R b d a bt False = Some ((Fin v, x), b)"
      using Suc.IH by blast
    show ?thesis
    proof (cases mx)
      case True
      from max_loop_finds [OF r, of "\<lambda>b' a bt. minimax R b' d a bt False", OF sF,
          of ?sorted "set (legal_moves R b)" NegInf None b alpha beta] ss sne
      obtain v m where "max_loop (\<lambda>b' a bt. minimax R b' d a bt False) R b ?sorted alpha beta NegInf None
          = Some ((Fin v, Some m), b)" "m \<in> set (legal_moves R b)" by auto
      with False True mk b1 show ?thesis by simp
    next
      case mxF: False
      from min_loop_finds [OF r, of "\<lambda>b' a bt. minimax R b' d a bt True", OF sT,
          of ?sorted "set (legal_moves R b)" PosInf None b alpha beta] ss sne
      obtain v m where "min_loop (\<lambda>b' a bt. minimax R b' d a bt True) R b ?sorted alpha beta PosInf None
          = Some ((Fin v, Some m), b)" "m \<in> set (legal_moves R b)" by auto
      with False mxF mk b1 show ?thesis by simp
    qed
  qed
qed

lemma mate_scan_result:
  assumes r: "restores R"
  shows "\<exists>x. mate_scan R b ms = (x, b)
           \<and> (x = None \<longleftrightarrow> \<not> list_ex (\<lambda>m. is_checkmate R (push R b m)) ms)
           \<and> (\<forall>m. x = Some m \<longrightarrow> m \<in> set ms \<and> is_checkmate R (push R b m))"
proof (induction ms)
  case Nil
  show ?case by simp
next
  case (Cons move rest)
  from r have p: "pop R (push R b move) = b" by (simp add: restores_def)
  with Cons show ?case by (auto simp: Let_def)
qed

lemma deepening_result:
  assumes r: "restores R" and e: "ended R" and k: "has_kings R"
  shows "\<forall>d \<in> set ds. 0 < d
    \<Longrightarrow> \<exists>mv. deepening R late b ds bm = Some (mv, b)
          \<and> (ds = [] \<longrightarrow> mv = bm)
          \<and> (ds \<noteq> [] \<longrightarrow> (mv = None \<longleftrightarrow> is_game_over R b)
                          \<and> (\<forall>m. mv = Some m \<longrightarrow> m \<in> set (legal_moves R b)))"
proof (induction ds arbitrary: bm)
  case Nil
  show ?case by simp
next
  case (Cons d ds)
  from Cons.prems have d: "0 < d" and ds: "\<forall>d \<in> set ds. 0 < d" by auto
  from minimax_finite [OF r e k, of b d NegInf PosInf "turn R b = Black"] d
  obtain v x where m: "minimax R b d NegInf PosInf (turn R b = Black) = Some ((Fin v, x), b)"
    and x: "x = None \<longleftrightarrow> is_game_over R b" "\<forall>m. x = Some m \<longrightarrow> m \<in> set (legal_moves R b)"
    by auto
  from Cons.IH [OF ds, of x] obtain mv where
    i: "deepening R late b ds x = Some (mv, b)" "ds = [] \<longrightarrow> mv = x"
       "ds \<noteq> [] \<longrightarrow> (mv = None \<longleftrightarrow> is_game_over R b) \<and> (\<forall>m. mv = Some m \<longrightarrow> m \<in> set (legal_moves R b))"
    by blast
  show ?case
  proof (cases "is_checkmate R b \<or> is_stalemate R b \<or> late d")
    case True
    with m x show ?thesis by simp
  next
    case False
    with m x i show ?thesis by (cases "ds = []") auto
  qed
qed

lemma krk_ended: "ended krk"
  by (simp add: ended_def krk_def krk_legal_moves_def krk_is_game_over_def)

lemma krk_has_kings: "has_kings krk"
  by (simp add: has_kings_def krk_def krk_king_def)

subsection \<open>C2: when the chooser returns no move\<close>

lemma run_no_moves:
  "legal_moves krk (start Black 40 56 (Some (White, 1))) = []"
  by code_simp

lemma run_find_best_move_bare:
  "map_option (fst \<circ> fst) (find_best_move 1 krk Map.empty (start White 4 60 None) 0)
     = Some (Some (4, 13))"
  by code_simp

text \<open>
  Claim C2, as the code has it. Over an engine that restores boards, ends the game when
  no move is legal and always finds both kings, \<open>get_ai_move\<close> returns (it neither faults
  nor diverges) and leaves the board as it was. It returns no move exactly when no legal
  move mates at once and either the depth is 0 or \<open>is_game_over\<close> holds of the position;
  in particular it returns none when no move is legal, and a move it returns is legal.
  \<open>find_best_move\<close> of the solver, at any depth, returns none when no move is legal,
  without searching and leaving table and board alone. The converse fails for both
  choosers, as the next theorem shows.
\<close>

theorem chooser_returns_none:
  assumes "restores R" and "ended R" and "has_kings R"
  shows "(\<exists>mv. get_ai_move R late b depth = Some (mv, b)
            \<and> (mv = None \<longleftrightarrow> \<not> mate_in_one R b \<and> (depth = 0 \<or> is_game_over R b))
            \<and> (legal_moves R b = [] \<longrightarrow> mv = None)
            \<and> (\<forall>m. mv = Some m \<longrightarrow> m \<in> set (legal_moves R b)))
       \<and> (legal_moves R b = [] \<longrightarrow> find_best_move calls R t b d = Some ((None, t), b))"
proof -
  from mate_scan_result [OF assms(1), of b "legal_moves R b"] obtain x where
    x: "mate_scan R b (legal_moves R b) = (x, b)"
       "x = None \<longleftrightarrow> \<not> mate_in_one R b"
       "\<forall>m. x = Some m \<longrightarrow> m \<in> set (legal_moves R b) \<and> is_checkmate R (push R b m)"
    by (auto simp: mate_in_one_def)
  have n: "legal_moves R b = [] \<longrightarrow> \<not> mate_in_one R b \<and> is_game_over R b"
    using assms(2) by (auto simp: mate_in_one_def ended_def)
  have f: "legal_moves R b = [] \<longrightarrow> find_best_move calls R t b d = Some ((None, t), b)"
    by (simp add: find_best_move_def)
  show ?thesis
  proof (cases x)
    case (Some m)
    with x n f show ?thesis by (auto simp: get_ai_move_def)
  next
    case None
    have "\<forall>d \<in> set [1..<Suc depth]. 0 < d" by auto
    from deepening_result [OF assms this, of late b None] obtain mv where
      "deepening R late b [1..<Suc depth] None = Some (mv, b)"
      "[1..<Suc depth] = [] \<longrightarrow> mv = None"
      "[1..<Suc depth] \<noteq> [] \<longrightarrow> (mv = None \<longleftrightarrow> is_game_over R b)
          \<and> (\<forall>m. mv = Some m \<longrightarrow> m \<in> set (legal_moves R b))"
      by blast
    with None x n f show ?thesis by (cases "depth = 0") (auto simp: get_ai_move_def)
  qed
qed

theorem chooser_returns_none_witness:
  "restores krk \<and> ended krk \<and> has_kings krk
   \<and> get_ai_move krk (\<lambda>_. False) (start White 7 22 (Some (Black, 56))) 1
       = Some (Some (7, 6), start White 7 22 (Some (Black, 56)))
   \<and> \<not> is_game_over krk (start White 7 22 (Some (Black, 56)))
   \<and> (7, 6) \<in> set (legal_moves krk (start White 7 22 (Some (Black, 56))))
   \<and> legal_moves krk (start Black 40 56 (Some (White, 1))) = []
   \<and> find_best_move 3 krk Map.empty (start Black 40 56 (Some (White, 1))) 3
       = Some ((None, Map.empty), start Black 40 56 (Some (White, 1)))"
proof -
  let ?b = "start White 7 22 (Some (Black, 56))"
  let ?s = "start Black 40 56 (Some (White, 1))"
  from chooser_returns_none [OF krk_restores krk_ended krk_has_kings, of "\<lambda>_. False" ?b 1]
  obtain mv where g: "get_ai_move krk (\<lambda>_. False) ?b 1 = Some (mv, ?b)"
    and n: "mv = None \<longleftrightarrow> \<not> mate_in_one krk ?b \<and> ((1 :: nat) = 0 \<or> is_game_over krk ?b)"
    and m: "\<forall>m. mv = Some m \<longrightarrow> m \<in> set (legal_moves krk ?b)"
    by blast
  from g run_get_ai_move have mv: "mv = Some (7, 6)" by simp
  have o: "\<not> is_game_over krk ?b" by code_simp
  from chooser_returns_none [OF krk_restores krk_ended krk_has_kings,
      of "\<lambda>_. False" ?s 1 3 Map.empty 3] run_no_moves
  have s: "find_best_move 3 krk Map.empty ?s 3 = Some ((None, Map.empty), ?s)" by blast
  from g mv m o s run_no_moves krk_restores krk_ended krk_has_kings show ?thesis by simp
qed

text \<open>
  Against claim C2 as stated, for each chooser a position with a legal move and no move
  returned. The two bare kings on e1 and e8, Black to move: Black has five legal moves,
  but the material is insufficient, \<open>is_game_over\<close> holds, every search returns at once
  with no move, and \<open>get_ai_move\<close> with the default depth 3 returns none. White king h1,
  Black king g3, Black rook a8, White to move: White has the one legal move Kg1, the
  solver's evaluator gives the position after it minus infinity, which does not exceed
  the minus infinity that \<open>find_best_move\<close> starts from, and \<open>find_best_move\<close> with depth 1
  returns none.
\<close>

theorem bare_kings_counterexample:
  "legal_moves krk (start Black 4 60 None) = [(60, 61), (60, 59), (60, 53), (60, 52), (60, 51)]
   \<and> get_ai_move krk (\<lambda>_. False) (start Black 4 60 None) 3 = Some (None, start Black 4 60 None)
   \<and> legal_moves krk (start White 7 22 (Some (Black, 56))) = [(7, 6)]
   \<and> map_option (fst \<circ> fst)
         (find_best_move 1 krk Map.empty (start White 7 22 (Some (Black, 56))) 1) = Some None"
  by code_simp

subsection \<open>C8: iterative deepening returns the result of a completed depth\<close>

lemma max_loop_total:
  assumes s: "\<And>b a bt. \<exists>r. search b a bt = Some r"
  shows "\<exists>r. max_loop search R b ms alpha beta me best = Some r"
proof (induction ms arbitrary: b alpha me best)
  case Nil
  show ?case by simp
next
  case (Cons move rest)
  from s obtain v x b1 where "search (push R b move) alpha beta = Some ((v, x), b1)"
    by (metis prod.exhaust)
  with Cons show ?case by (simp add: Let_def)
qed

lemma min_loop_total:
  assumes s: "\<And>b a bt. \<exists>r. search b a bt = Some r"
  shows "\<exists>r. min_loop search R b ms alpha beta me best = Some r"
proof (induction ms arbitrary: b beta me best)
  case Nil
  show ?case by simp
next
  case (Cons move rest)
  from s obtain v x b1 where "search (push R b move) alpha beta = Some ((v, x), b1)"
    by (metis prod.exhaust)
  with Cons show ?case by (simp add: Let_def)
qed

lemma minimax_total:
  assumes k: "has_kings R"
  shows "\<exists>r. minimax R b d alpha beta mx = Some r"
proof (induction d arbitrary: b alpha beta mx)
  case 0
  from evaluate_board_total [OF k, of b] show ?case by auto
next
  case (Suc d)
  show ?case
  proof (cases "is_game_over R b")
    case True
    with evaluate_board_total [OF k, of b] show ?thesis by auto
  next
    case False
    obtain ks b1 where mk: "move_keys R b (legal_moves R b) = (ks, b1)"
      by (cases "move_keys R b (legal_moves R b)")
    from max_loop_total [of "\<lambda>b' a bt. minimax R b' d a bt False"] Suc.IH
    have 1: "\<exists>r. max_loop (\<lambda>b' a bt. minimax R b' d a bt False) R b1
                 (sort_moves mx ks (legal_moves R b)) alpha beta NegInf None = Some r"
      by blast
    from min_loop_total [of "\<lambda>b' a bt. minimax R b' d a bt True"] Suc.IH
    have 2: "\<exists>r. min_loop (\<lambda>b' a bt. minimax R b' d a bt True) R b1
                 (sort_moves mx ks (legal_moves R b)) alpha beta PosInf None = Some r"
      by blast
    from False mk 1 2 show ?thesis by (cases mx) simp_all
  qed
qed

lemma minimax_returns:
  assumes "restores R" and "has_kings R"
  shows "\<exists>v x. minimax R b d alpha beta mx = Some ((v, x), b)"
proof -
  from minimax_total [OF assms(2), of b d alpha beta mx]
  obtain v x b' where m: "minimax R b d alpha beta mx = Some ((v, x), b')"
    by (metis prod.exhaust)
  with minimax_board [OF assms(1) m] show ?thesis by simp
qed

lemma deepening_from:
  assumes r: "restores R" and k: "has_kings R"
  shows "i \<le> depth \<Longrightarrow>
    \<exists>mv d v. deepening R late b [i..<Suc depth] bm = Some (mv, b)
       \<and> i \<le> d \<and> d \<le> depth
       \<and> minimax R b d NegInf PosInf (turn R b = Black) = Some ((v, mv), b)
       \<and> (d = depth \<or> is_checkmate R b \<or> is_stalemate R b \<or> late d)
       \<and> (\<forall>d'. i \<le> d' \<and> d' < d \<longrightarrow> \<not> late d')"
proof (induction "depth - i" arbitrary: i bm)
  case 0
  then have i: "i = depth" by simp
  from minimax_returns [OF r k, of b depth NegInf PosInf "turn R b = Black"]
  obtain v x where m: "minimax R b depth NegInf PosInf (turn R b = Black) = Some ((v, x), b)"
    by blast
  have u: "[depth..<Suc depth] = [depth]" by simp
  have "deepening R late b [depth] bm = Some (x, b)" using m by simp
  with m i u show ?case by auto
next
  case (Suc n)
  then have lt: "i < depth" and n: "n = depth - Suc i" and le: "Suc i \<le> depth" by auto
  from minimax_returns [OF r k, of b i NegInf PosInf "turn R b = Black"]
  obtain v x where m: "minimax R b i NegInf PosInf (turn R b = Black) = Some ((v, x), b)"
    by blast
  from lt have u: "[i..<Suc depth] = i # [Suc i..<Suc depth]" by (simp add: upt_conv_Cons)
  show ?case
  proof (cases "is_checkmate R b \<or> is_stalemate R b \<or> late i")
    case True
    with m have "deepening R late b (i # [Suc i..<Suc depth]) bm = Some (x, b)" by simp
    with m u True lt show ?thesis by (intro exI [of _ x] exI [of _ i] exI [of _ v]) auto
  next
    case False
    from Suc.hyps(1) [OF n le, of x] obtain mv d v' where
      h: "deepening R late b [Suc i..<Suc depth] x = Some (mv, b)" "Suc i \<le> d" "d \<le> depth"
         "minimax R b d NegInf PosInf (turn R b = Black) = Some ((v', mv), b)"
         "d = depth \<or> is_checkmate R b \<or> is_stalemate R b \<or> late d"
         "\<forall>d'. Suc i \<le> d' \<and> d' < d \<longrightarrow> \<not> late d'"
      by blast
    from m False h(1) have "deepening R late b (i # [Suc i..<Suc depth]) bm = Some (mv, b)" by simp
    moreover have "\<forall>d'. i \<le> d' \<and> d' < d \<longrightarrow> \<not> late d'"
    proof (intro allI impI)
      fix d' assume "i \<le> d' \<and> d' < d"
      then show "\<not> late d'" using False h(6) by (cases "d' = i") auto
    qed
    ultimately show ?thesis using u h(2-5)
      by (intro exI [of _ mv] exI [of _ d] exI [of _ v']) auto
  qed
qed

text \<open>
  Claim C8. The clock is read once after each search, through \<open>late\<close>. Over an engine that
  restores boards and finds both kings, and for a depth of at least 1, the deepening loop
  returns, and what it returns is the move of the complete search of some depth \<open>d\<close>
  between 1 and \<open>depth\<close>, a search in which the clock plays no part. The loop stopped
  after \<open>d\<close> because \<open>d\<close> is the last depth, or the position is checkmate or stalemate, or
  the time was up after depth \<open>d\<close>; the time was not up after any earlier depth.
\<close>

theorem deepening_completed_depth:
  assumes "restores R" and "has_kings R" and "0 < depth"
  shows "\<exists>mv d v. deepening R late b [1..<Suc depth] None = Some (mv, b)
       \<and> 1 \<le> d \<and> d \<le> depth
       \<and> minimax R b d NegInf PosInf (turn R b = Black) = Some ((v, mv), b)
       \<and> (d = depth \<or> is_checkmate R b \<or> is_stalemate R b \<or> late d)
       \<and> (\<forall>d'. 1 \<le> d' \<and> d' < d \<longrightarrow> \<not> late d')"
  using deepening_from [OF assms(1,2), of 1 depth late b None] assms(3) by simp

lemma run_turn: "(turn krk (start White 7 22 (Some (Black, 56))) = Black) = False"
  by code_simp

theorem deepening_completed_depth_witness:
  "restores krk \<and> has_kings krk \<and> (0 :: nat) < 2
   \<and> deepening krk (\<lambda>d. d = 1) (start White 7 22 (Some (Black, 56))) [1..<Suc 2] None
       = Some (Some (7, 6), start White 7 22 (Some (Black, 56)))"
proof -
  let ?b = "start White 7 22 (Some (Black, 56))"
  have l: "(0 :: nat) < 2" by simp
  from deepening_completed_depth [OF krk_restores krk_has_kings l, of "\<lambda>d. d = 1" ?b]
  obtain mv d v where a: "deepening krk (\<lambda>d. d = 1) ?b [1..<Suc 2] None = Some (mv, ?b)"
    and d: "1 \<le> d" "d \<le> 2"
    and m: "minimax krk ?b d NegInf PosInf (turn krk ?b = Black) = Some ((v, mv), ?b)"
    and e: "\<forall>d'. 1 \<le> d' \<and> d' < d \<longrightarrow> d' \<noteq> 1"
    by blast
  from d e have "d = 1" by (cases "d = 2") auto
  with m have "minimax krk ?b 1 NegInf PosInf False = Some ((v, mv), ?b)"
    by (simp only: run_turn)
  then have "map_option fst (minimax krk ?b 1 NegInf PosInf False) = Some (v, mv)"
    by (simp only: option.map fst_conv)
  with run_minimax have "mv = Some (7, 6)"
    by (simp only: option.inject prod.inject)
  with a l krk_restores krk_has_kings show ?thesis by (simp only: simp_thms)
qed

subsection \<open>C9: the transposition table\<close>

lemma ssearch_eq:
  "ssearch calls R d f = (\<lambda>t' b' a bt. solver_minimax calls R t' b' d a bt f)"
  by (intro ext) (simp add: ssearch_def)

lemma solver_minimax_code [code]:
  "solver_minimax 0 R t b depth alpha beta maximizing_player = None"
  "solver_minimax (Suc calls) R t b depth alpha beta maximizing_player =
     (case lookup_entry t (fen R b) depth of
        Some v \<Rightarrow> Some ((v, t), b)
      | None \<Rightarrow>
          if depth = 0 then solver_leaf R t b depth
          else if is_game_over R b then solver_leaf R t b depth
          else if maximizing_player
          then store (fen R b) depth
                 (solver_max_loop (ssearch calls R (depth - 1) False)
                    R t b (legal_moves R b) alpha beta NegInf)
          else store (fen R b) depth
                 (solver_min_loop (ssearch calls R (depth - 1) True)
                    R t b (legal_moves R b) alpha beta PosInf))"
  unfolding ssearch_eq by (rule solver_minimax.simps)+

lemma nsearch_eq:
  "nsearch calls R d f = (\<lambda>u b' a bt. solver_minimax_nocache calls R b' d a bt f)"
  by (intro ext) (simp add: nsearch_def)

lemma solver_minimax_nocache_code [code]:
  "solver_minimax_nocache 0 R b depth alpha beta maximizing_player = None"
  "solver_minimax_nocache (Suc calls) R b depth alpha beta maximizing_player =
     (if depth = 0 then map_option (\<lambda>eval. ((eval, ()), b)) (solver_evaluate_board R b)
      else if is_game_over R b
      then map_option (\<lambda>eval. ((eval, ()), b)) (solver_evaluate_board R b)
      else if maximizing_player
      then solver_max_loop (nsearch calls R (depth - 1) False)
             R () b (legal_moves R b) alpha beta NegInf
      else solver_min_loop (nsearch calls R (depth - 1) True)
             R () b (legal_moves R b) alpha beta PosInf)"
  unfolding nsearch_eq by (rule solver_minimax_nocache.simps)+

lemma hsearch_eq:
  "hsearch calls R d f = (\<lambda>s' b' a bt. solver_minimax_hits calls R s' b' d a bt f)"
  by (intro ext) (simp add: hsearch_def)

lemma solver_minimax_hits_code [code]:
  "solver_minimax_hits 0 R s b depth alpha beta maximizing_player = None"
  "solver_minimax_hits (Suc calls) R s b depth alpha beta maximizing_player =
     (case lookup_entry (fst s) (fen R b) depth of
        Some v \<Rightarrow> Some ((v, (fst s, Suc (snd s))), b)
      | None \<Rightarrow>
          if depth = 0
          then map_option (\<lambda>eval. ((eval, ((fst s)(fen R b \<mapsto> (eval, depth)), snd s)), b))
                 (solver_evaluate_board R b)
          else if is_game_over R b
          then map_option (\<lambda>eval. ((eval, ((fst s)(fen R b \<mapsto> (eval, depth)), snd s)), b))
                 (solver_evaluate_board R b)
          else
            (case (if maximizing_player
                   then solver_max_loop (hsearch calls R (depth - 1) False)
                          R s b (legal_moves R b) alpha beta NegInf
                   else solver_min_loop (hsearch calls R (depth - 1) True)
                          R s b (legal_moves R b) alpha beta PosInf) of
               None \<Rightarrow> None
             | Some ((v, s1), b1) \<Rightarrow>
                 Some ((v, ((fst s1)(fen R b \<mapsto> (v, depth)), snd s1)), b1)))"
  unfolding hsearch_eq by (rule solver_minimax_hits.simps)+













subsection \<open>C1: pruning does not change the result\<close>

lemma usearch_eq: "usearch R d f = (\<lambda>b'. minimax_unpruned R b' d f)"
  by (intro ext) (simp add: usearch_def)

lemma minimax_unpruned_code [code]:
  "minimax_unpruned R b 0 maximizing_player =
     map_option (\<lambda>v. ((Fin v, None), b)) (evaluate_board R b)"
  "minimax_unpruned R b (Suc d) maximizing_player =
     (if is_game_over R b then map_option (\<lambda>v. ((Fin v, None), b)) (evaluate_board R b)
      else
        (let ms = legal_moves R b;
             (ks, b1) = move_keys R b ms;
             sorted = sort_moves maximizing_player ks ms
         in if maximizing_player
            then plain_max_loop (usearch R d False) R b1 sorted NegInf None
            else plain_min_loop (usearch R d True) R b1 sorted PosInf None))"
  unfolding usearch_eq by (rule minimax_unpruned.simps)+

lemma fits_refl: "fits alpha beta v v"
  by (simp add: fits_def)

lemma fits_full: "fits NegInf PosInf v r \<Longrightarrow> r = (v :: 'a :: linorder ext)"
  by (cases v; cases r) (auto simp: fits_def)

lemma max_cut:
  fixes alpha :: "'a :: linorder"
  assumes "alpha < beta" and "fits alpha beta v r" and "beta \<le> max alpha r"
  shows "beta \<le> v" and "beta \<le> r"
  using assms by (auto simp: fits_def max_def split: if_splits)

lemma max_keep:
  fixes alpha :: "'a :: linorder"
  assumes "alpha = max alpha0 me" and "\<not> beta \<le> max alpha r" and "fits alpha beta v r"
    and "pme \<le> alpha0 \<longrightarrow> me \<le> alpha0" and "alpha0 < pme \<longrightarrow> me = pme"
  shows "max pme v \<le> alpha0 \<longrightarrow> max me r \<le> alpha0"
    and "alpha0 < max pme v \<longrightarrow> max me r = max pme v"
    and "max alpha r = max alpha0 (max me r)"
  using assms by (auto simp: fits_def max_def split: if_splits)

lemma min_cut:
  fixes alpha :: "'a :: linorder"
  assumes "alpha < beta" and "fits alpha beta v r" and "min beta r \<le> alpha"
  shows "v \<le> alpha" and "r \<le> alpha"
  using assms by (auto simp: fits_def min_def split: if_splits)

lemma min_keep:
  fixes alpha :: "'a :: linorder"
  assumes "beta = min beta0 me" and "\<not> min beta r \<le> alpha" and "fits alpha beta v r"
    and "beta0 \<le> pme \<longrightarrow> beta0 \<le> me" and "pme < beta0 \<longrightarrow> me = pme"
  shows "beta0 \<le> min pme v \<longrightarrow> beta0 \<le> min me r"
    and "min pme v < beta0 \<longrightarrow> min me r = min pme v"
    and "min beta r = min beta0 (min me r)"
  using assms by (auto simp: fits_def min_def split: if_splits)

lemma ext_bounds:
  "(x \<le> NegInf) = (x = (NegInf :: 'a :: linorder ext))" "(PosInf \<le> x) = (x = PosInf)"
  "(NegInf < x) = (x \<noteq> NegInf)" "(x < PosInf) = (x \<noteq> PosInf)"
  by (cases x; simp add: less_ext_def)+

lemma if_max: "(if r > me then r else me) = max me (r :: 'a :: linorder)"
  by (auto simp: max_def)

lemma if_min: "(if r < me then r else me) = min me (r :: 'a :: linorder)"
  by (auto simp: min_def)

lemma max_best:
  fixes me :: "'a :: linorder ext"
  assumes "fits me PosInf v r"
  shows "(me < r) = (me < v)" and "me < v \<Longrightarrow> r = v"
  using assms by (cases v; cases r; cases me; auto simp: fits_def)+

lemma min_best:
  fixes me :: "'a :: linorder ext"
  assumes "fits NegInf me v r"
  shows "(r < me) = (v < me)" and "v < me \<Longrightarrow> r = v"
  using assms by (cases v; cases r; cases me; auto simp: fits_def)+

lemma plain_max_loop_facts:
  assumes r: "restores R" and ku: "\<And>b x b'. u b = Some (x, b') \<Longrightarrow> b' = b"
  shows "plain_max_loop u R b ms pme pbest = Some ((V, M), b')
    \<Longrightarrow> b' = b \<and> pme \<le> V \<and> (pme = PosInf \<longrightarrow> M = pbest)"
proof (induction ms arbitrary: b pme pbest)
  case Nil
  then show ?case by simp
next
  case (Cons m rest)
  from Cons.prems obtain v x b1 where u1: "u (push R b m) = Some ((v, x), b1)"
    and rest: "plain_max_loop u R (pop R b1) rest (if v > pme then v else pme)
                 (if v > pme then Some m else pbest) = Some ((V, M), b')"
    by (auto split: option.splits)
  from ku [OF u1] r have p: "pop R b1 = b" by (simp add: restores_def)
  from Cons.IH [OF rest] p show ?case by (auto split: if_splits)
qed

lemma plain_min_loop_facts:
  assumes r: "restores R" and ku: "\<And>b x b'. u b = Some (x, b') \<Longrightarrow> b' = b"
  shows "plain_min_loop u R b ms pme pbest = Some ((V, M), b')
    \<Longrightarrow> b' = b \<and> V \<le> pme \<and> (pme = NegInf \<longrightarrow> M = pbest)"
proof (induction ms arbitrary: b pme pbest)
  case Nil
  then show ?case by simp
next
  case (Cons m rest)
  from Cons.prems obtain v x b1 where u1: "u (push R b m) = Some ((v, x), b1)"
    and rest: "plain_min_loop u R (pop R b1) rest (if v < pme then v else pme)
                 (if v < pme then Some m else pbest) = Some ((V, M), b')"
    by (auto split: option.splits)
  from ku [OF u1] r have p: "pop R b1 = b" by (simp add: restores_def)
  from Cons.IH [OF rest] p show ?case by (auto split: if_splits)
qed

lemma max_loop_prunes:
  assumes r: "restores R"
    and H: "\<And>b al bt v x b'. al < bt \<Longrightarrow> u b = Some ((v, x), b')
              \<Longrightarrow> b' = b \<and> (\<exists>r y. s b al bt = Some ((r, y), b) \<and> fits al bt v r)"
  shows "plain_max_loop u R b ms pme pbest = Some ((V, M), b')
    \<Longrightarrow> alpha = max alpha0 me \<Longrightarrow> alpha < beta
    \<Longrightarrow> (pme \<le> alpha0 \<longrightarrow> me \<le> alpha0) \<Longrightarrow> (alpha0 < pme \<longrightarrow> me = pme)
    \<Longrightarrow> (alpha0 = NegInf \<and> beta = PosInf \<longrightarrow> best = pbest)
    \<Longrightarrow> \<exists>r M'. max_loop s R b ms alpha beta me best = Some ((r, M'), b)
          \<and> fits alpha0 beta V r \<and> (alpha0 = NegInf \<and> beta = PosInf \<longrightarrow> M' = M)"
proof (induction ms arbitrary: b pme pbest me best alpha)
  case Nil
  then show ?case by (auto simp: fits_def)
next
  case (Cons m rest)
  have ku: "\<And>b x b'. u b = Some (x, b') \<Longrightarrow> b' = b"
  proof -
    fix b x b' assume a: "u b = Some (x, b')"
    obtain v y where "x = (v, y)" by (cases x)
    with a H [of NegInf PosInf b v y b'] show "b' = b" by simp
  qed
  from Cons.prems(1) obtain v x b1 where u1: "u (push R b m) = Some ((v, x), b1)"
    and rest: "plain_max_loop u R (pop R b1) rest (if v > pme then v else pme)
                 (if v > pme then Some m else pbest) = Some ((V, M), b')"
    by (auto split: option.splits)
  from H [OF Cons.prems(3) u1] obtain r' y where b1: "b1 = push R b m"
    and s1: "s (push R b m) alpha beta = Some ((r', y), push R b m)"
    and f: "fits alpha beta v r'"
    by blast
  from r b1 have p: "pop R b1 = b" "pop R (push R b m) = b" by (simp_all add: restores_def)
  note rest' = rest [unfolded p if_max]
  from plain_max_loop_facts [OF r ku rest [unfolded p]]
  have pf: "max pme v \<le> V" "max pme v = PosInf \<longrightarrow> M = (if v > pme then Some m else pbest)"
    by (simp_all add: if_max)
  have bst: "alpha0 = NegInf \<and> beta = PosInf \<longrightarrow>
      (if r' > me then Some m else best) = (if v > pme then Some m else pbest)"
  proof
    assume w: "alpha0 = NegInf \<and> beta = PosInf"
    with Cons.prems(4,5) have e: "me = pme" by (cases "pme = NegInf") (auto simp: ext_bounds)
    from w Cons.prems(2) have "alpha = me" by (simp add: max_def)
    with f w have "fits me PosInf v r'" by simp
    from max_best [OF this] e w Cons.prems(6) show
      "(if r' > me then Some m else best) = (if v > pme then Some m else pbest)" by simp
  qed
  show ?case
  proof (cases "beta \<le> max alpha r'")
    case True
    from max_cut [OF Cons.prems(3) f True] have bv: "beta \<le> v" "beta \<le> r'" .
    from Cons.prems(2,3) have ab: "alpha0 < beta" by simp
    from bv(1) pf(1) have bV: "beta \<le> V" by (meson max.cobounded2 order_trans)
    from bv(2) have "beta \<le> max me r'" by (simp add: le_max_iff_disj)
    with bV ab have ft: "fits alpha0 beta V (max me r')"
      by (auto simp: fits_def)
    have mv: "alpha0 = NegInf \<and> beta = PosInf \<longrightarrow> (if r' > me then Some m else best) = M"
    proof
      assume w: "alpha0 = NegInf \<and> beta = PosInf"
      with bv have "v = PosInf" by (cases v) auto
      then have "max pme v = PosInf" by (cases pme) (auto simp: max_def)
      with pf(2) bst w show "(if r' > me then Some m else best) = M" by simp
    qed
    from s1 p True have "max_loop s R b (m # rest) alpha beta me best
        = Some ((max me r', if r' > me then Some m else best), b)"
      by (simp add: Let_def if_max)
    with ft mv show ?thesis by blast
  next
    case False
    note k = max_keep [OF Cons.prems(2) False f Cons.prems(4,5)]
    from False have lt: "max alpha r' < beta" by (simp only: not_le)
    from Cons.IH [OF rest' k(3) lt k(1,2), of "if r' > me then Some m else best"] bst
    obtain r'' M' where "max_loop s R b rest (max alpha r') beta (max me r')
          (if r' > me then Some m else best) = Some ((r'', M'), b)"
       "fits alpha0 beta V r''" "alpha0 = NegInf \<and> beta = PosInf \<longrightarrow> M' = M"
      by auto
    moreover from s1 p False have "max_loop s R b (m # rest) alpha beta me best
        = max_loop s R b rest (max alpha r') beta (max me r') (if r' > me then Some m else best)"
      by (simp add: Let_def if_max)
    ultimately show ?thesis by simp
  qed
qed

lemma min_loop_prunes:
  assumes r: "restores R"
    and H: "\<And>b al bt v x b'. al < bt \<Longrightarrow> u b = Some ((v, x), b')
              \<Longrightarrow> b' = b \<and> (\<exists>r y. s b al bt = Some ((r, y), b) \<and> fits al bt v r)"
  shows "plain_min_loop u R b ms pme pbest = Some ((V, M), b')
    \<Longrightarrow> beta = min beta0 me \<Longrightarrow> alpha < beta
    \<Longrightarrow> (beta0 \<le> pme \<longrightarrow> beta0 \<le> me) \<Longrightarrow> (pme < beta0 \<longrightarrow> me = pme)
    \<Longrightarrow> (alpha = NegInf \<and> beta0 = PosInf \<longrightarrow> best = pbest)
    \<Longrightarrow> \<exists>r M'. min_loop s R b ms alpha beta me best = Some ((r, M'), b)
          \<and> fits alpha beta0 V r \<and> (alpha = NegInf \<and> beta0 = PosInf \<longrightarrow> M' = M)"
proof (induction ms arbitrary: b pme pbest me best beta)
  case Nil
  then show ?case by (auto simp: fits_def)
next
  case (Cons m rest)
  have ku: "\<And>b x b'. u b = Some (x, b') \<Longrightarrow> b' = b"
  proof -
    fix b x b' assume a: "u b = Some (x, b')"
    obtain v y where "x = (v, y)" by (cases x)
    with a H [of NegInf PosInf b v y b'] show "b' = b" by simp
  qed
  from Cons.prems(1) obtain v x b1 where u1: "u (push R b m) = Some ((v, x), b1)"
    and rest: "plain_min_loop u R (pop R b1) rest (if v < pme then v else pme)
                 (if v < pme then Some m else pbest) = Some ((V, M), b')"
    by (auto split: option.splits)
  from H [OF Cons.prems(3) u1] obtain r' y where b1: "b1 = push R b m"
    and s1: "s (push R b m) alpha beta = Some ((r', y), push R b m)"
    and f: "fits alpha beta v r'"
    by blast
  from r b1 have p: "pop R b1 = b" "pop R (push R b m) = b" by (simp_all add: restores_def)
  note rest' = rest [unfolded p if_min]
  from plain_min_loop_facts [OF r ku rest [unfolded p]]
  have pf: "V \<le> min pme v" "min pme v = NegInf \<longrightarrow> M = (if v < pme then Some m else pbest)"
    by (simp_all add: if_min)
  have bst: "alpha = NegInf \<and> beta0 = PosInf \<longrightarrow>
      (if r' < me then Some m else best) = (if v < pme then Some m else pbest)"
  proof
    assume w: "alpha = NegInf \<and> beta0 = PosInf"
    with Cons.prems(4,5) have e: "me = pme" by (cases "pme = PosInf") (auto simp: ext_bounds)
    from w Cons.prems(2) have "beta = me" by (simp add: min_def ext_bounds)
    with f w have "fits NegInf me v r'" by simp
    from min_best [OF this] e w Cons.prems(6) show
      "(if r' < me then Some m else best) = (if v < pme then Some m else pbest)" by simp
  qed
  show ?case
  proof (cases "min beta r' \<le> alpha")
    case True
    from min_cut [OF Cons.prems(3) f True] have bv: "v \<le> alpha" "r' \<le> alpha" .
    from Cons.prems(2,3) have ab: "alpha < beta0" by simp
    from bv(1) pf(1) have bV: "V \<le> alpha" by (meson min.cobounded2 order_trans)
    from bv(2) have "min me r' \<le> alpha" by (simp add: min_le_iff_disj)
    with bV ab have ft: "fits alpha beta0 V (min me r')"
      by (auto simp: fits_def)
    have mv: "alpha = NegInf \<and> beta0 = PosInf \<longrightarrow> (if r' < me then Some m else best) = M"
    proof
      assume w: "alpha = NegInf \<and> beta0 = PosInf"
      with bv have "v = NegInf" by (simp add: ext_bounds)
      then have "min pme v = NegInf" by (cases pme) (auto simp: min_def)
      with pf(2) bst w show "(if r' < me then Some m else best) = M" by simp
    qed
    from s1 p True have "min_loop s R b (m # rest) alpha beta me best
        = Some ((min me r', if r' < me then Some m else best), b)"
      by (simp add: Let_def if_min)
    with ft mv show ?thesis by blast
  next
    case False
    note k = min_keep [OF Cons.prems(2) False f Cons.prems(4,5)]
    from False have lt: "alpha < min beta r'" by (simp only: not_le)
    from Cons.IH [OF rest' k(3) lt k(1,2), of "if r' < me then Some m else best"] bst
    obtain r'' M' where "min_loop s R b rest alpha (min beta r') (min me r')
          (if r' < me then Some m else best) = Some ((r'', M'), b)"
       "fits alpha beta0 V r''" "alpha = NegInf \<and> beta0 = PosInf \<longrightarrow> M' = M"
      by auto
    moreover from s1 p False have "min_loop s R b (m # rest) alpha beta me best
        = min_loop s R b rest alpha (min beta r') (min me r') (if r' < me then Some m else best)"
      by (simp add: Let_def if_min)
    ultimately show ?thesis by simp
  qed
qed

lemma minimax_prunes:
  assumes r: "restores R"
  shows "alpha < beta \<Longrightarrow> minimax_unpruned R b d mx = Some ((v, x), b')
    \<Longrightarrow> b' = b \<and> (\<exists>r y. minimax R b d alpha beta mx = Some ((r, y), b) \<and> fits alpha beta v r
                   \<and> (alpha = NegInf \<and> beta = PosInf \<longrightarrow> y = x))"
proof (induction d arbitrary: b alpha beta mx v x b')
  case 0
  then show ?case by (auto simp: fits_refl)
next
  case (Suc d)
  show ?case
  proof (cases "is_game_over R b")
    case True
    with Suc.prems show ?thesis by (auto simp: fits_refl)
  next
    case False
    obtain ks b1 where mk: "move_keys R b (legal_moves R b) = (ks, b1)"
      by (cases "move_keys R b (legal_moves R b)")
    with move_keys_board [OF r, of b "legal_moves R b"] have b1: "b1 = b" by simp
    let ?sorted = "sort_moves mx ks (legal_moves R b)"
    show ?thesis
    proof (cases mx)
      case True
      have H: "\<And>b al bt v x b'. al < bt \<Longrightarrow> minimax_unpruned R b d False = Some ((v, x), b')
              \<Longrightarrow> b' = b \<and> (\<exists>r y. minimax R b d al bt False = Some ((r, y), b) \<and> fits al bt v r)"
        using Suc.IH by blast
      from Suc.prems(2) False True mk b1
      have p: "plain_max_loop (\<lambda>b'. minimax_unpruned R b' d False) R b ?sorted NegInf None
                 = Some ((v, x), b')" by simp
      have ku: "\<And>b x b'. minimax_unpruned R b d False = Some (x, b') \<Longrightarrow> b' = b"
      proof -
        fix b x b' assume a: "minimax_unpruned R b d False = Some (x, b')"
        obtain w y where "x = (w, y)" by (cases x)
        with a H [of NegInf PosInf b w y b'] show "b' = b" by simp
      qed
      from plain_max_loop_facts [OF r, where u = "\<lambda>b'. minimax_unpruned R b' d False", OF ku p]
      have bb: "b' = b" by simp
      have "\<exists>r' M'. max_loop (\<lambda>b' a bt. minimax R b' d a bt False) R b ?sorted alpha beta
            NegInf None = Some ((r', M'), b) \<and> fits alpha beta v r'
          \<and> (alpha = NegInf \<and> beta = PosInf \<longrightarrow> M' = x)"
      proof (rule max_loop_prunes [OF r _ p, where ?alpha0.0 = alpha])
        show "\<And>b al bt v x b'. al < bt \<Longrightarrow> minimax_unpruned R b d False = Some ((v, x), b')
              \<Longrightarrow> b' = b \<and> (\<exists>r y. minimax R b d al bt False = Some ((r, y), b) \<and> fits al bt v r)"
          by (rule H)
        show "alpha = max alpha NegInf" by (simp add: max_def ext_bounds)
        show "alpha < beta" by (rule Suc.prems(1))
      qed simp_all
      with False True mk b1 bb show ?thesis by auto
    next
      case mxF: False
      have H: "\<And>b al bt v x b'. al < bt \<Longrightarrow> minimax_unpruned R b d True = Some ((v, x), b')
              \<Longrightarrow> b' = b \<and> (\<exists>r y. minimax R b d al bt True = Some ((r, y), b) \<and> fits al bt v r)"
        using Suc.IH by blast
      from Suc.prems(2) False mxF mk b1
      have p: "plain_min_loop (\<lambda>b'. minimax_unpruned R b' d True) R b ?sorted PosInf None
                 = Some ((v, x), b')" by simp
      have ku: "\<And>b x b'. minimax_unpruned R b d True = Some (x, b') \<Longrightarrow> b' = b"
      proof -
        fix b x b' assume a: "minimax_unpruned R b d True = Some (x, b')"
        obtain w y where "x = (w, y)" by (cases x)
        with a H [of NegInf PosInf b w y b'] show "b' = b" by simp
      qed
      from plain_min_loop_facts [OF r, where u = "\<lambda>b'. minimax_unpruned R b' d True", OF ku p]
      have bb: "b' = b" by simp
      have "\<exists>r' M'. min_loop (\<lambda>b' a bt. minimax R b' d a bt True) R b ?sorted alpha beta
            PosInf None = Some ((r', M'), b) \<and> fits alpha beta v r'
          \<and> (alpha = NegInf \<and> beta = PosInf \<longrightarrow> M' = x)"
      proof (rule min_loop_prunes [OF r _ p, where ?beta0.0 = beta])
        show "\<And>b al bt v x b'. al < bt \<Longrightarrow> minimax_unpruned R b d True = Some ((v, x), b')
              \<Longrightarrow> b' = b \<and> (\<exists>r y. minimax R b d al bt True = Some ((r, y), b) \<and> fits al bt v r)"
          by (rule H)
        show "beta = min beta PosInf" by (simp add: min_def ext_bounds)
        show "alpha < beta" by (rule Suc.prems(1))
      qed simp_all
      with False mxF mk b1 bb show ?thesis by auto
    qed
  qed
qed

lemma plain_max_loop_total:
  assumes s: "\<And>b. \<exists>r. u b = Some r"
  shows "\<exists>r. plain_max_loop u R b ms me best = Some r"
proof (induction ms arbitrary: b me best)
  case Nil
  show ?case by simp
next
  case (Cons move rest)
  from s obtain v x b1 where "u (push R b move) = Some ((v, x), b1)"
    by (metis prod.exhaust)
  with Cons show ?case by simp
qed

lemma plain_min_loop_total:
  assumes s: "\<And>b. \<exists>r. u b = Some r"
  shows "\<exists>r. plain_min_loop u R b ms me best = Some r"
proof (induction ms arbitrary: b me best)
  case Nil
  show ?case by simp
next
  case (Cons move rest)
  from s obtain v x b1 where "u (push R b move) = Some ((v, x), b1)"
    by (metis prod.exhaust)
  with Cons show ?case by simp
qed

lemma minimax_unpruned_total:
  assumes k: "has_kings R"
  shows "\<exists>r. minimax_unpruned R b d mx = Some r"
proof (induction d arbitrary: b mx)
  case 0
  from evaluate_board_total [OF k, of b] show ?case by auto
next
  case (Suc d)
  show ?case
  proof (cases "is_game_over R b")
    case True
    with evaluate_board_total [OF k, of b] show ?thesis by auto
  next
    case False
    obtain ks b1 where mk: "move_keys R b (legal_moves R b) = (ks, b1)"
      by (cases "move_keys R b (legal_moves R b)")
    from plain_max_loop_total [of "\<lambda>b'. minimax_unpruned R b' d False"] Suc.IH
    have 1: "\<exists>r. plain_max_loop (\<lambda>b'. minimax_unpruned R b' d False) R b1
                 (sort_moves mx ks (legal_moves R b)) NegInf None = Some r"
      by blast
    from plain_min_loop_total [of "\<lambda>b'. minimax_unpruned R b' d True"] Suc.IH
    have 2: "\<exists>r. plain_min_loop (\<lambda>b'. minimax_unpruned R b' d True) R b1
                 (sort_moves mx ks (legal_moves R b)) PosInf None = Some r"
      by blast
    from False mk 1 2 show ?thesis by (cases mx) simp_all
  qed
qed

text \<open>
  Claim C1. Over an engine whose \<open>pop\<close> undoes \<open>push\<close>, whenever the search without pruning
  returns, \<open>minimax\<close> called with the full window returns the same score, the same move
  and the same board, at every depth and for either side. The search without pruning
  does return whenever the engine finds both kings, as python-chess does on every board
  the programs set up. (On a board without a king the unpruned search can fault in a
  branch that pruning skips; that is the one case the hypothesis leaves out.)
\<close>

theorem pruning_keeps_result:
  assumes "restores R"
  shows "(minimax_unpruned R b d mx \<noteq> None
            \<longrightarrow> minimax R b d NegInf PosInf mx = minimax_unpruned R b d mx)
       \<and> (has_kings R \<longrightarrow> minimax_unpruned R b d mx \<noteq> None)"
proof (intro conjI impI)
  assume "minimax_unpruned R b d mx \<noteq> None"
  then obtain v x b' where u: "minimax_unpruned R b d mx = Some ((v, x), b')"
    by (metis not_None_eq prod.exhaust)
  have "(NegInf :: score) < PosInf" by simp
  from minimax_prunes [OF assms this u] obtain r y where
    "b' = b" "minimax R b d NegInf PosInf mx = Some ((r, y), b)" "fits NegInf PosInf v r" "y = x"
    by blast
  with u fits_full [of v r] show "minimax R b d NegInf PosInf mx = minimax_unpruned R b d mx"
    by simp
next
  assume "has_kings R"
  from minimax_unpruned_total [OF this, of b d mx]
  show "minimax_unpruned R b d mx \<noteq> None" by auto
qed

theorem pruning_keeps_result_witness:
  "restores krk \<and> has_kings krk
   \<and> minimax_unpruned krk (start White 7 22 (Some (Black, 56))) 1 False \<noteq> None
   \<and> map_option fst (minimax_unpruned krk (start White 7 22 (Some (Black, 56))) 1 False)
       = Some (Fin 85, Some (7, 6))"
proof -
  let ?b = "start White 7 22 (Some (Black, 56))"
  note t = pruning_keeps_result [OF krk_restores, of ?b 1 False]
  from t krk_has_kings have n: "minimax_unpruned krk ?b 1 False \<noteq> None" by blast
  with t have "minimax krk ?b 1 NegInf PosInf False = minimax_unpruned krk ?b 1 False" by blast
  with run_minimax
  have "map_option fst (minimax_unpruned krk ?b 1 False) = Some (Fin 85, Some (7, 6))"
    by (simp only:)
  with krk_restores krk_has_kings n show ?thesis by (intro conjI)
qed

subsection \<open>C3: a mate in one\<close>

lemma msearch3_eq: "msearch3 R d f = (\<lambda>b' a bt. minimax3 R b' d a bt f)"
  by (intro ext) (simp add: msearch3_def)

lemma minimax3_code [code]:
  "minimax3 R b 0 alpha beta maximizing_player =
     map_option (\<lambda>v. ((Fin v, None), b)) (evaluate_board3 R b)"
  "minimax3 R b (Suc d) alpha beta maximizing_player =
     (if is_game_over R b then map_option (\<lambda>v. ((Fin v, None), b)) (evaluate_board3 R b)
      else
        (let ms = legal_moves R b;
             (ks, b1) = move_keys3 R b ms;
             sorted = sort_moves maximizing_player ks ms
         in if maximizing_player
            then max_loop (msearch3 R d False) R b1 sorted alpha beta NegInf None
            else min_loop (msearch3 R d True) R b1 sorted alpha beta PosInf None))"
  unfolding msearch3_eq by (rule minimax3.simps)+

text \<open>
  Claim C3 holds of the first program, at every depth, by the scan that comes before the
  search: over an engine that restores boards, when some legal move mates at once,
  \<open>get_ai_move\<close> returns a legal move after which the position is checkmate.
\<close>

lemma fast_path_finds_mate:
  assumes "restores R" and "mate_in_one R b"
  shows "\<exists>m. get_ai_move R late b depth = Some (Some m, b)
           \<and> m \<in> set (legal_moves R b) \<and> is_checkmate R (push R b m)"
proof -
  from mate_scan_result [OF assms(1), of b "legal_moves R b"] assms(2)
  obtain m where "mate_scan R b (legal_moves R b) = (Some m, b)"
    "m \<in> set (legal_moves R b)" "is_checkmate R (push R b m)"
    by (auto simp: mate_in_one_def)
  then show ?thesis by (simp add: get_ai_move_def)
qed

text \<open>
  The third program has no such scan, and claim C3 fails there. White king h1, Black king
  g3, Black rook a8, Black to move: Ra1 mates at once, and it is the only move that does.
  For the side that minimizes, \<open>minimax\<close> sorts the moves by rising key, so the mating move,
  whose key is 10000, comes last; the first move to reach the score -10000 is kept. At
  depth 3 that move is Re8, which forces mate a move later (Kg1, Re1) and sorts before
  Ra1; the deepening loop goes on past depths 1 and 2, where Ra1 was chosen, because its
  test looks at the position itself, which is not checkmate. The facts below are the part
  of this that costs little to run: Ra1 mates, Re8 does not, and the first program
  returns Ra1.
\<close>

lemma run_mate_in_one:
  "(56, 0) \<in> set (legal_moves krk (start Black 7 22 (Some (Black, 56))))
   \<and> is_checkmate krk (push krk (start Black 7 22 (Some (Black, 56))) (56, 0))
   \<and> (56, 60) \<in> set (legal_moves krk (start Black 7 22 (Some (Black, 56))))
   \<and> \<not> is_checkmate krk (push krk (start Black 7 22 (Some (Black, 56))) (56, 60))
   \<and> legal_moves krk (push krk (start Black 7 22 (Some (Black, 56))) (56, 60)) = [(7, 6)]
   \<and> is_checkmate krk
        (push krk (push krk (push krk (start Black 7 22 (Some (Black, 56))) (56, 60)) (7, 6))
           (60, 4))"
  by code_simp

lemma run_first_program_mates:
  "map_option fst (get_ai_move krk (\<lambda>_. False) (start Black 7 22 (Some (Black, 56))) 3)
     = Some (Some (56, 0))"
  by code_simp

end
